theory Spec2Isabelle
  imports Complex_Main "HOL-Library.Sublist" "HOL-Library.Product_Lexorder"
begin

section \<open>Test-Sync-Pro: the delta / de-duplication / routing core\<close>

text \<open>
  A shallow embedding of \<^verbatim>\<open>delta_analyzer.py\<close>, \<^verbatim>\<open>dedup_engine.py\<close>,
  \<^verbatim>\<open>folder_manager.py\<close> and the orchestration in \<^verbatim>\<open>run.py\<close>, together with the part
  of Python's \<^verbatim>\<open>difflib.SequenceMatcher\<close> these modules call.

  Conventions.
  \<^item> A Python \<^verbatim>\<open>str\<close> is a \<open>string\<close>; a \<open>char\<close> stands for a code point below 256, so
    \<open>length\<close> is Python's \<^verbatim>\<open>len\<close> on such text. \<^verbatim>\<open>str.lower\<close> and \<^verbatim>\<open>str.strip\<close> are
    modelled on exactly these code points.
  \<^item> A Python \<^verbatim>\<open>float\<close> that is computed as the quotient of two lengths is the exact
    rational (\<open>rat\<close>); the only operations on scores are comparisons, and two such
    quotients compare as their floats do while the lengths stay below \<open>2\<^sup>2\<^sup>6\<close>.
  \<^item> Every operation that can raise is a value of \<open>error + 'a\<close>, \<open>Inl\<close> being the raise.
  \<^item> Logging is left out: the modules hand their records to the \<^verbatim>\<open>logging\<close> package and
    go on; what a handler installed by the caller does with a record is not part of them.
  \<^item> Sequence positions are \<open>nat\<close>; every position the code computes is non-negative.
\<close>

subsection \<open>Errors\<close>

datatype error = IndexError | KeyError | ZeroDivisionError | MarkupError | RemoteError string

definition py_index :: "'a list \<Rightarrow> nat \<Rightarrow> error + 'a" where
  "py_index xs i = (if i < length xs then Inr (xs ! i) else Inl IndexError)"

definition py_truediv :: "nat \<Rightarrow> nat \<Rightarrow> error + rat" where
  "py_truediv n d = (if d = 0 then Inl ZeroDivisionError else Inr (of_nat n / of_nat d))"

subsection \<open>Strings\<close>

definition isspace :: "char \<Rightarrow> bool" where
  "isspace c = (let n = (of_char c :: nat)
                in (9 \<le> n \<and> n \<le> 13) \<or> (28 \<le> n \<and> n \<le> 32) \<or> n = 133 \<or> n = 160)"

definition char_lower :: "char \<Rightarrow> char" where
  "char_lower c = (let n = (of_char c :: nat)
                   in if (65 \<le> n \<and> n \<le> 90) \<or> (192 \<le> n \<and> n \<le> 222 \<and> n \<noteq> 215)
                      then char_of (n + 32) else c)"

definition str_lower :: "string \<Rightarrow> string" where
  "str_lower s = map char_lower s"

definition str_strip :: "string \<Rightarrow> string" where
  "str_strip s = rev (dropWhile isspace (rev (dropWhile isspace s)))"

definition str_lstrip :: "string \<Rightarrow> string \<Rightarrow> string" where
  "str_lstrip chars s = dropWhile (\<lambda>c. c \<in> set chars) s"

text \<open>\<^verbatim>\<open>s.replace("\r\n", "\n")\<close>\<close>

fun str_replace_crlf :: "string \<Rightarrow> string" where
  "str_replace_crlf [] = []"
| "str_replace_crlf [c] = [c]"
| "str_replace_crlf (c # d # cs) =
     (if c = CHR 0x0D \<and> d = CHR 0x0A then CHR 0x0A # str_replace_crlf cs
      else c # str_replace_crlf (d # cs))"

text \<open>\<^verbatim>\<open>s.split(sep)\<close> for a one-character separator: never the empty list.\<close>

fun str_split :: "char \<Rightarrow> string \<Rightarrow> string list" where
  "str_split sep [] = [[]]"
| "str_split sep (c # cs) =
     (if c = sep then [] # str_split sep cs
      else (case str_split sep cs of [] \<Rightarrow> [[c]] | l # ls \<Rightarrow> (c # l) # ls))"

text \<open>\<^verbatim>\<open>sep.join(parts)\<close>\<close>

fun str_join :: "string \<Rightarrow> string list \<Rightarrow> string" where
  "str_join sep [] = []"
| "str_join sep [p] = p"
| "str_join sep (p # q # ps) = p @ sep @ str_join sep (q # ps)"

text \<open>\<^verbatim>\<open>x in s\<close> on strings is the test for a contiguous substring, \<^const>\<open>sublist\<close>.\<close>

abbreviation newline :: string where
  "newline \<equiv> [CHR 0x0A]"

subsection \<open>models.py\<close>

text \<open>
  The dataclasses. Several of them have fields \<^verbatim>\<open>id\<close>, \<^verbatim>\<open>title\<close>, \<^verbatim>\<open>steps\<close>, \<^verbatim>\<open>priority\<close>
  and \<^verbatim>\<open>tags\<close>; the fields carry a prefix for their class (\<open>us\<close>, \<open>gtc\<close>, \<open>etc\<close>) where
  the name is shared or is a keyword.
\<close>

record UserStory =
  us_id :: int
  us_title :: string
  us_description :: string
  acceptance_criteria :: string
  us_priority :: int
  us_tags :: "string list"
  us_state :: string

record TestStep =
  action :: string
  expected_result :: string

record GeneratedTestCase =
  gtc_title :: string
  gtc_given :: string
  gtc_when :: string
  gtc_then :: string
  gtc_steps :: "TestStep list"
  gtc_priority :: int
  gtc_tags :: "string list"
  category :: string
  test_type :: string

record ExistingTestCase =
  etc_id :: int
  etc_title :: string
  etc_steps :: "TestStep list"
  etc_priority :: int
  etc_tags :: "string list"
  revision :: int

record SyncResult =
  story_id :: int
  created_ids :: "int list"
  updated_ids :: "int list"
  skipped_count :: int
  folder_map :: "(string \<times> int) list"

subsection \<open>difflib.SequenceMatcher\<close>

text \<open>
  The part of the standard library's \<^verbatim>\<open>difflib.py\<close> (CPython 3.11) that the two modules
  call: \<^verbatim>\<open>__chain_b\<close>, \<^verbatim>\<open>find_longest_match\<close>, \<^verbatim>\<open>get_matching_blocks\<close> and \<^verbatim>\<open>ratio\<close>.
  The matcher is built as \<^verbatim>\<open>SequenceMatcher(None, a, b)\<close>: no junk predicate, and the
  automatic junk heuristic on. \<^verbatim>\<open>__chain_b\<close> fills \<^verbatim>\<open>b2j\<close>, the dictionary from an
  element of \<open>b\<close> to the ascending list of its positions, and then deletes the
  elements that are popular: when \<open>b\<close> has at least 200 elements, those occurring more
  than \<open>n div 100 + 1\<close> times. A dictionary is an association list in insertion order.
\<close>

type_synonym 'a b2j = "('a \<times> nat list) list"

fun setdefault_append :: "'a \<Rightarrow> nat \<Rightarrow> 'a b2j \<Rightarrow> 'a b2j" where
  "setdefault_append elt i [] = [(elt, [i])]"
| "setdefault_append elt i ((x, indices) # kvs) =
     (if x = elt then (x, indices @ [i]) # kvs else (x, indices) # setdefault_append elt i kvs)"

record 'a SequenceMatcher =
  sm_a :: "'a list"
  sm_b :: "'a list"
  sm_b2j :: "'a b2j"
  sm_bjunk :: "'a list"
  sm_bpopular :: "'a list"

definition chain_b :: "'a list \<Rightarrow> 'a b2j \<times> 'a list \<times> 'a list" where
  "chain_b b =
     (let b2j = fold (\<lambda>(i, elt) b2j. setdefault_append elt i b2j) (enumerate 0 b) [];
          junk = [];
          n = length b
      in if n \<ge> 200 then
           (let ntest = n div 100 + 1;
                popular = map fst (filter (\<lambda>(elt, idxs). length idxs > ntest) b2j)
            in (filter (\<lambda>(elt, idxs). elt \<notin> set popular) b2j, junk, popular))
         else (b2j, junk, []))"

definition SequenceMatcher_init :: "'a list \<Rightarrow> 'a list \<Rightarrow> 'a SequenceMatcher" where
  "SequenceMatcher_init a b =
     (case chain_b b of (b2j, junk, popular) \<Rightarrow>
        \<lparr>sm_a = a, sm_b = b, sm_b2j = b2j, sm_bjunk = junk, sm_bpopular = popular\<rparr>)"

text \<open>\<^verbatim>\<open>b2j.get(x, nothing)\<close> with \<^verbatim>\<open>nothing = []\<close>.\<close>

definition b2j_get :: "'a b2j \<Rightarrow> 'a \<Rightarrow> nat list" where
  "b2j_get b2j x = (case map_of b2j x of None \<Rightarrow> [] | Some indices \<Rightarrow> indices)"

definition isbjunk :: "'a SequenceMatcher \<Rightarrow> 'a \<Rightarrow> bool" where
  "isbjunk sm x = (x \<in> set (sm_bjunk sm))"

text \<open>
  \<^verbatim>\<open>find_longest_match\<close>, the inner loop over the positions \<open>j\<close> of \<open>a[i]\<close> in \<open>b\<close>.
  \<open>j2len\<close> is the dictionary of the previous row, looked up with
  \<^verbatim>\<open>j2len.get(j-1, 0)\<close>: the key is an \<open>int\<close>, since \<open>j - 1\<close> is \<open>-1\<close> at \<open>j = 0\<close>.
  The state is \<^verbatim>\<open>(newj2len, besti, bestj, bestsize)\<close>. The code sets
  \<^verbatim>\<open>besti = i-k+1\<close>; on \<open>nat\<close> this is \<open>Suc i - k\<close>, as \<open>k \<le> i + 1\<close>.
\<close>

type_synonym j2len = "int \<rightharpoonup> nat"

type_synonym match = "nat \<times> nat \<times> nat"

fun flm_inner :: "j2len \<Rightarrow> nat \<Rightarrow> nat \<Rightarrow> nat \<Rightarrow> nat list \<Rightarrow> j2len \<times> match \<Rightarrow> j2len \<times> match" where
  "flm_inner j2len i blo bhi [] st = st"
| "flm_inner j2len i blo bhi (j # js) (newj2len, besti, bestj, bestsize) =
     (if j < blo then flm_inner j2len i blo bhi js (newj2len, besti, bestj, bestsize)
      else if j \<ge> bhi then (newj2len, besti, bestj, bestsize)
      else
        (let k = (case j2len (int j - 1) of None \<Rightarrow> 0 | Some v \<Rightarrow> v) + 1;
             newj2len' = newj2len(int j \<mapsto> k)
         in if k > bestsize
            then flm_inner j2len i blo bhi js (newj2len', Suc i - k, Suc j - k, k)
            else flm_inner j2len i blo bhi js (newj2len', besti, bestj, bestsize)))"

text \<open>The outer loop \<^verbatim>\<open>for i in range(alo, ahi)\<close>; reading \<^verbatim>\<open>a[i]\<close> can raise.\<close>

function flm_outer ::
  "'a SequenceMatcher \<Rightarrow> nat \<Rightarrow> nat \<Rightarrow> nat \<Rightarrow> nat \<Rightarrow> j2len \<times> match \<Rightarrow> error + match" where
  "flm_outer sm i ahi blo bhi (j2len, best) =
     (if i < ahi then
        (case py_index (sm_a sm) i of
           Inl e \<Rightarrow> Inl e
         | Inr x \<Rightarrow>
             flm_outer sm (Suc i) ahi blo bhi
               (flm_inner j2len i blo bhi (b2j_get (sm_b2j sm) x) (Map.empty, best)))
      else Inr best)"
  by pat_completeness auto
termination
  by (relation "measure (\<lambda>(sm, i, ahi, blo, bhi, st). ahi - i)") auto

text \<open>
  The four \<^verbatim>\<open>while\<close> loops that extend the match. The first two extend over elements
  that are not junk, the last two over junk; \<open>junk\<close> says which pair it is. Python's
  \<^verbatim>\<open>and\<close> evaluates left to right, so \<open>b\<close> is read before \<open>a\<close>.
\<close>

function extend_left ::
  "'a SequenceMatcher \<Rightarrow> bool \<Rightarrow> nat \<Rightarrow> nat \<Rightarrow> match \<Rightarrow> error + match" where
  "extend_left sm junk alo blo (besti, bestj, bestsize) =
     (if besti > alo \<and> bestj > blo then
        (case py_index (sm_b sm) (bestj - 1) of
           Inl e \<Rightarrow> Inl e
         | Inr y \<Rightarrow>
             if isbjunk sm y \<noteq> junk then Inr (besti, bestj, bestsize)
             else (case py_index (sm_a sm) (besti - 1) of
                     Inl e \<Rightarrow> Inl e
                   | Inr x \<Rightarrow>
                       if x = y then extend_left sm junk alo blo (besti - 1, bestj - 1, bestsize + 1)
                       else Inr (besti, bestj, bestsize)))
      else Inr (besti, bestj, bestsize))"
  by pat_completeness auto
termination
  by (relation "measure (\<lambda>(sm, junk, alo, blo, besti, bestj, bestsize). besti)") auto

function extend_right ::
  "'a SequenceMatcher \<Rightarrow> bool \<Rightarrow> nat \<Rightarrow> nat \<Rightarrow> match \<Rightarrow> error + match" where
  "extend_right sm junk ahi bhi (besti, bestj, bestsize) =
     (if besti + bestsize < ahi \<and> bestj + bestsize < bhi then
        (case py_index (sm_b sm) (bestj + bestsize) of
           Inl e \<Rightarrow> Inl e
         | Inr y \<Rightarrow>
             if isbjunk sm y \<noteq> junk then Inr (besti, bestj, bestsize)
             else (case py_index (sm_a sm) (besti + bestsize) of
                     Inl e \<Rightarrow> Inl e
                   | Inr x \<Rightarrow>
                       if x = y then extend_right sm junk ahi bhi (besti, bestj, bestsize + 1)
                       else Inr (besti, bestj, bestsize)))
      else Inr (besti, bestj, bestsize))"
  by pat_completeness auto
termination
  by (relation "measure (\<lambda>(sm, junk, ahi, bhi, besti, bestj, bestsize). ahi - (besti + bestsize))") auto

definition bind :: "error + 'a \<Rightarrow> ('a \<Rightarrow> error + 'b) \<Rightarrow> error + 'b" where
  "bind m f = (case m of Inl e \<Rightarrow> Inl e | Inr x \<Rightarrow> f x)"

definition find_longest_match ::
  "'a SequenceMatcher \<Rightarrow> nat \<Rightarrow> nat \<Rightarrow> nat \<Rightarrow> nat \<Rightarrow> error + match" where
  "find_longest_match sm alo ahi blo bhi =
     bind (flm_outer sm alo ahi blo bhi (Map.empty, (alo, blo, 0))) (\<lambda>best.
     bind (extend_left sm False alo blo best) (\<lambda>best.
     bind (extend_right sm False ahi bhi best) (\<lambda>best.
     bind (extend_left sm True alo blo best) (\<lambda>best.
     extend_right sm True ahi bhi best))))"

text \<open>
  \<^verbatim>\<open>get_matching_blocks\<close>. The \<^verbatim>\<open>queue\<close> is used as a stack (\<^verbatim>\<open>append\<close> and \<^verbatim>\<open>pop\<close> at
  the end); here the head of the list is the end of Python's list.
\<close>

function gmb_loop ::
  "'a SequenceMatcher \<Rightarrow> (nat \<times> nat \<times> nat \<times> nat) list \<Rightarrow> match list \<Rightarrow> error + match list" where
  "gmb_loop sm [] matching_blocks = Inr matching_blocks"
| "gmb_loop sm ((alo, ahi, blo, bhi) # queue) matching_blocks =
     (case find_longest_match sm alo ahi blo bhi of
        Inl e \<Rightarrow> Inl e
      | Inr (i, j, k) \<Rightarrow>
          if k \<noteq> 0 then
            gmb_loop sm
              ((if i + k < ahi \<and> j + k < bhi then [(i + k, ahi, j + k, bhi)] else []) @
               (if alo < i \<and> blo < j then [(alo, i, blo, j)] else []) @ queue)
              (matching_blocks @ [(i, j, k)])
          else gmb_loop sm queue matching_blocks)"
  by pat_completeness auto

text \<open>The loop that collapses adjacent blocks; the state is \<^verbatim>\<open>((i1, j1, k1), non_adjacent)\<close>.\<close>

fun collapse_step :: "match \<times> match list \<Rightarrow> match \<Rightarrow> match \<times> match list" where
  "collapse_step ((i1, j1, k1), non_adjacent) (i2, j2, k2) =
     (if i1 + k1 = i2 \<and> j1 + k1 = j2 then ((i1, j1, k1 + k2), non_adjacent)
      else ((i2, j2, k2), if k1 \<noteq> 0 then non_adjacent @ [(i1, j1, k1)] else non_adjacent))"

definition get_matching_blocks :: "'a SequenceMatcher \<Rightarrow> error + match list" where
  "get_matching_blocks sm =
     (let la = length (sm_a sm); lb = length (sm_b sm)
      in bind (gmb_loop sm [(0, la, 0, lb)] []) (\<lambda>matching_blocks.
           (case fold (\<lambda>m st. collapse_step st m) (sort matching_blocks) ((0, 0, 0), []) of
              ((i1, j1, k1), non_adjacent) \<Rightarrow>
                Inr ((if k1 \<noteq> 0 then non_adjacent @ [(i1, j1, k1)] else non_adjacent)
                     @ [(la, lb, 0)]))))"

definition calculate_ratio :: "nat \<Rightarrow> nat \<Rightarrow> error + rat" where
  "calculate_ratio matches len = (if len \<noteq> 0 then py_truediv (2 * matches) len else Inr 1)"

definition ratio :: "'a SequenceMatcher \<Rightarrow> error + rat" where
  "ratio sm =
     bind (get_matching_blocks sm) (\<lambda>blocks.
       calculate_ratio (sum_list (map (\<lambda>(i, j, k). k) blocks))
         (length (sm_a sm) + length (sm_b sm)))"

subsection \<open>config.py\<close>

text \<open>
  \<^verbatim>\<open>DEDUP_THRESHOLD = float(os.getenv("DEDUP_THRESHOLD", "0.90"))\<close>: the argument is the
  value of the environment variable, when it is set.
\<close>

record Settings =
  DEDUP_THRESHOLD :: rat

definition Settings_load :: "rat option \<Rightarrow> Settings" where
  "Settings_load env = \<lparr>DEDUP_THRESHOLD = (case env of None \<Rightarrow> 9 / 10 | Some v \<Rightarrow> v)\<rparr>"

subsection \<open>dedup_engine.py\<close>

definition tc_signature :: "string \<Rightarrow> string \<Rightarrow> string \<Rightarrow> string \<Rightarrow> string" where
  "tc_signature title given when' then' =
     str_lower (str_strip (title @ newline @ given @ newline @ when' @ newline @ then'))"

definition existing_signature :: "ExistingTestCase \<Rightarrow> string" where
  "existing_signature tc =
     (let steps_text = str_join newline
            (map (\<lambda>s. action s @ '' '' @ expected_result s) (etc_steps tc))
      in str_lower (str_strip (etc_title tc @ newline @ steps_text)))"

definition similarity :: "string \<Rightarrow> string \<Rightarrow> error + rat" where
  "similarity a b = ratio (SequenceMatcher_init a b)"

record DedupResult =
  is_duplicate :: bool
  matched_id :: int
  score :: rat

record DedupEngine =
  threshold :: rat
  existing_sigs :: "(int \<times> string) list"

text \<open>
  \<^verbatim>\<open>self._threshold = threshold or Settings.DEDUP_THRESHOLD\<close>: \<^verbatim>\<open>None\<close> and \<^verbatim>\<open>0.0\<close> are
  the falsy arguments.
\<close>

definition DedupEngine_init ::
  "Settings \<Rightarrow> ExistingTestCase list \<Rightarrow> rat option \<Rightarrow> DedupEngine" where
  "DedupEngine_init settings existing thr =
     \<lparr>threshold = (case thr of
                     None \<Rightarrow> DEDUP_THRESHOLD settings
                   | Some t \<Rightarrow> if t = 0 then DEDUP_THRESHOLD settings else t),
      existing_sigs = map (\<lambda>tc. (etc_id tc, existing_signature tc)) existing\<rparr>"

fun check_loop :: "string \<Rightarrow> (int \<times> string) list \<Rightarrow> rat \<times> int \<Rightarrow> error + rat \<times> int" where
  "check_loop new_sig [] (best_score, best_id) = Inr (best_score, best_id)"
| "check_loop new_sig ((existing_id, existing_sig) # rest) (best_score, best_id) =
     (case similarity new_sig existing_sig of
        Inl e \<Rightarrow> Inl e
      | Inr sc \<Rightarrow>
          if sc > best_score then check_loop new_sig rest (sc, existing_id)
          else check_loop new_sig rest (best_score, best_id))"

definition check :: "DedupEngine \<Rightarrow> GeneratedTestCase \<Rightarrow> error + DedupResult" where
  "check eng tc =
     (let new_sig = tc_signature (gtc_title tc) (gtc_given tc) (gtc_when tc) (gtc_then tc)
      in bind (check_loop new_sig (existing_sigs eng) (0, 0)) (\<lambda>(best_score, best_id).
           if best_score \<ge> threshold eng
           then Inr \<lparr>is_duplicate = True, matched_id = best_id, score = best_score\<rparr>
           else Inr \<lparr>is_duplicate = False, matched_id = 0, score = best_score\<rparr>))"

fun check_batch ::
  "DedupEngine \<Rightarrow> GeneratedTestCase list \<Rightarrow> error + (GeneratedTestCase \<times> DedupResult) list" where
  "check_batch eng [] = Inr []"
| "check_batch eng (tc # cases) =
     bind (check eng tc) (\<lambda>r. bind (check_batch eng cases) (\<lambda>rs. Inr ((tc, r) # rs)))"

subsection \<open>delta_analyzer.py\<close>

text \<open>
  The characters \<^verbatim>\<open>lstrip\<close> removes are \<^verbatim>\<open>-*0123456789.)\<close>, the space and the bullet
  U+2022; the bullet is no code point below 256 and is absent from the model.
\<close>

definition extract_criteria_lines :: "string \<Rightarrow> string list" where
  "extract_criteria_lines ac_text =
     filter (\<lambda>clean. clean \<noteq> [])
       (map (\<lambda>raw. str_lstrip ''-*0123456789.) '' (str_strip raw))
          (str_split (CHR 0x0A) (str_replace_crlf ac_text)))"

definition existing_coverage_text :: "ExistingTestCase list \<Rightarrow> string" where
  "existing_coverage_text existing =
     str_lower (str_join newline
       (concat (map (\<lambda>tc. etc_title tc #
                        concat (map (\<lambda>step. [action step, expected_result step]) (etc_steps tc)))
                existing)))"

definition line_is_covered :: "string \<Rightarrow> string \<Rightarrow> rat \<Rightarrow> error + bool" where
  "line_is_covered line coverage_text thr =
     (if sublist (str_lower line) coverage_text then Inr True
      else
        bind (find_longest_match (SequenceMatcher_init (str_lower line) coverage_text)
                0 (length (str_lower line)) 0 (length coverage_text)) (\<lambda>(best_a, best_b, best_size).
        bind (if coverage_text \<noteq> []
              then py_truediv (best_size * 2) (length line + length coverage_text)
              else Inr 0) (\<lambda>ratio.
        Inr (ratio \<ge> thr))))"

record DeltaAnalyzer =
  da_story :: UserStory
  da_existing :: "ExistingTestCase list"

fun uncovered_loop :: "string list \<Rightarrow> string \<Rightarrow> string list \<Rightarrow> error + string list" where
  "uncovered_loop [] coverage uncovered = Inr uncovered"
| "uncovered_loop (line # ac_lines) coverage uncovered =
     (case line_is_covered line coverage (7 / 10) of
        Inl e \<Rightarrow> Inl e
      | Inr covered \<Rightarrow>
          if \<not> covered then uncovered_loop ac_lines coverage (uncovered @ [line])
          else uncovered_loop ac_lines coverage uncovered)"

definition compute_delta :: "DeltaAnalyzer \<Rightarrow> error + string" where
  "compute_delta self =
     (let ac_lines = extract_criteria_lines (acceptance_criteria (da_story self))
      in if ac_lines = [] then Inr []
         else if da_existing self = [] then Inr []
         else
           (let coverage = existing_coverage_text (da_existing self)
            in bind (uncovered_loop ac_lines coverage []) (\<lambda>uncovered.
                 if uncovered = [] then Inr []
                 else Inr (str_join newline (map (\<lambda>line. ''- '' @ line) uncovered)))))"

definition has_existing_tests :: "DeltaAnalyzer \<Rightarrow> bool" where
  "has_existing_tests self = (da_existing self \<noteq> [])"

subsection \<open>The collaborators\<close>

text \<open>
  \<^verbatim>\<open>ADOClient\<close> and \<^verbatim>\<open>TestGenerator\<close> talk to remote services. A run is a computation
  that appends every collaborator call to a trace and may raise; what a collaborator
  answers is a parameter (the \<open>world\<close>), which may depend on all calls made before.

  The console of \<^verbatim>\<open>rich\<close> is a collaborator as well. It renders the text it is given
  as markup and raises \<^verbatim>\<open>MarkupError\<close> on a closing tag that matches no open tag, so
  every place of \<^verbatim>\<open>run.py\<close> that prints text of the story, of a generated test case or
  of the result is a call that may raise: \<^verbatim>\<open>_show_story\<close>, \<^verbatim>\<open>console.print(delta)\<close>,
  \<^verbatim>\<open>_show_plan\<close>, the line printed for a duplicate, and \<^verbatim>\<open>_show_results\<close>.
\<close>

datatype call =
    NewADOClient
  | GetUserStory int
  | ShowStory UserStory
  | GetLinkedTestCases int
  | PrintDelta string
  | NewTestGenerator
  | Generate UserStory string
  | ShowPlan "GeneratedTestCase list"
  | PrintMatch GeneratedTestCase DedupResult
  | EnsureFolders
  | CreateTestCase GeneratedTestCase int
  | UpdateTestCase int GeneratedTestCase
  | AddTestToSuite int int
  | ShowResults SyncResult

record world =
  ado_client_init :: "call list \<Rightarrow> error + unit"
  get_user_story :: "call list \<Rightarrow> int \<Rightarrow> error + UserStory"
  get_linked_test_cases :: "call list \<Rightarrow> int \<Rightarrow> error + ExistingTestCase list"
  test_generator_init :: "call list \<Rightarrow> error + unit"
  generate :: "call list \<Rightarrow> UserStory \<Rightarrow> string \<Rightarrow> error + GeneratedTestCase list"
  ensure_folders :: "call list \<Rightarrow> error + (string \<times> int) list"
  create_test_case :: "call list \<Rightarrow> GeneratedTestCase \<Rightarrow> int \<Rightarrow> error + int"
  update_test_case :: "call list \<Rightarrow> int \<Rightarrow> GeneratedTestCase \<Rightarrow> error + unit"
  add_test_to_suite :: "call list \<Rightarrow> int \<Rightarrow> int \<Rightarrow> error + unit"
  console_print :: "call list \<Rightarrow> call \<Rightarrow> error + unit"

type_synonym 'a io = "call list \<Rightarrow> (error + 'a) \<times> call list"

definition io_return :: "'a \<Rightarrow> 'a io" where
  "io_return x = (\<lambda>tr. (Inr x, tr))"

definition io_bind :: "'a io \<Rightarrow> ('a \<Rightarrow> 'b io) \<Rightarrow> 'b io" where
  "io_bind m f = (\<lambda>tr. case m tr of (Inl e, tr') \<Rightarrow> (Inl e, tr') | (Inr x, tr') \<Rightarrow> f x tr')"

definition io_lift :: "error + 'a \<Rightarrow> 'a io" where
  "io_lift r = (\<lambda>tr. (r, tr))"

definition io_call :: "call \<Rightarrow> (call list \<Rightarrow> error + 'a) \<Rightarrow> 'a io" where
  "io_call c answer = (\<lambda>tr. (answer tr, tr @ [c]))"

definition console :: "world \<Rightarrow> call \<Rightarrow> unit io" where
  "console w c = io_call c (\<lambda>tr. console_print w tr c)"

subsection \<open>folder_manager.py\<close>

text \<open>
  \<^verbatim>\<open>_folder_map\<close> is a \<^verbatim>\<open>dict[str, int]\<close>; \<^verbatim>\<open>.get(name)\<close> is \<^const>\<open>map_of\<close>. The tests
  \<^verbatim>\<open>if complete_id:\<close> and \<^verbatim>\<open>if cat_suite_id:\<close> are false for \<^verbatim>\<open>None\<close> and for \<open>0\<close>.
\<close>

record FolderManager =
  fm_folder_map :: "(string \<times> int) list"

definition setup_folders :: "world \<Rightarrow> FolderManager \<Rightarrow> (FolderManager \<times> (string \<times> int) list) io" where
  "setup_folders w self =
     io_bind (io_call EnsureFolders (ensure_folders w)) (\<lambda>m.
       io_return (self\<lparr>fm_folder_map := m\<rparr>, m))"

definition file_into :: "world \<Rightarrow> int option \<Rightarrow> int \<Rightarrow> unit io" where
  "file_into w suite_id test_case_id =
     (case suite_id of
        None \<Rightarrow> io_return ()
      | Some sid \<Rightarrow>
          if sid \<noteq> 0
          then io_call (AddTestToSuite sid test_case_id) (\<lambda>tr. add_test_to_suite w tr sid test_case_id)
          else io_return ())"

definition assign_test :: "world \<Rightarrow> FolderManager \<Rightarrow> int \<Rightarrow> GeneratedTestCase \<Rightarrow> FolderManager io" where
  "assign_test w self test_case_id tc =
     io_bind (if fm_folder_map self = []
              then io_bind (setup_folders w self) (\<lambda>(self', m). io_return self')
              else io_return self) (\<lambda>self.
     let complete_id = map_of (fm_folder_map self) ''Complete Test Cases''
     in io_bind (file_into w complete_id test_case_id) (\<lambda>_.
     let cat = (if category tc \<in> set [''Smoke'', ''Sanity'', ''Regression'']
                then category tc else ''Regression'');
         cat_suite_id = map_of (fm_folder_map self) cat
     in io_bind (file_into w cat_suite_id test_case_id) (\<lambda>_.
     io_return self)))"

fun assign_loop ::
  "world \<Rightarrow> FolderManager \<Rightarrow> (int \<times> GeneratedTestCase) list \<Rightarrow> FolderManager io" where
  "assign_loop w self [] = io_return self"
| "assign_loop w self ((tc_id, tc) # id_tc_pairs) =
     io_bind (assign_test w self tc_id tc) (\<lambda>self. assign_loop w self id_tc_pairs)"

definition assign_many ::
  "world \<Rightarrow> FolderManager \<Rightarrow> (int \<times> GeneratedTestCase) list \<Rightarrow> FolderManager io" where
  "assign_many w self id_tc_pairs =
     io_bind (if fm_folder_map self = []
              then io_bind (setup_folders w self) (\<lambda>(self', m). io_return self')
              else io_return self) (\<lambda>self.
     assign_loop w self id_tc_pairs)"

subsection \<open>run.py\<close>

text \<open>
  The orchestration \<^verbatim>\<open>run(story_id, dry_run)\<close>. The argument \<^verbatim>\<open>story_id\<close> is \<open>sid\<close> here,
  \<open>story_id\<close> being the field of the result. The console output that renders a literal
  or a number (the rules of the phases, the counts) has a fixed, balanced markup and is
  left out; the output that renders text of the data is a call of the console.
\<close>

definition show_story :: "world \<Rightarrow> UserStory \<Rightarrow> unit io" where
  "show_story w story = console w (ShowStory story)"

definition show_plan :: "world \<Rightarrow> GeneratedTestCase list \<Rightarrow> unit io" where
  "show_plan w cases = console w (ShowPlan cases)"

definition show_results :: "world \<Rightarrow> SyncResult \<Rightarrow> unit io" where
  "show_results w result = console w (ShowResults result)"

text \<open>The loop over \<^verbatim>\<open>paired\<close> that splits the cases and prints a line for each duplicate.\<close>

fun split_loop ::
  "world \<Rightarrow> (GeneratedTestCase \<times> DedupResult) list \<Rightarrow>
   GeneratedTestCase list \<times> (int \<times> GeneratedTestCase) list \<Rightarrow>
   (GeneratedTestCase list \<times> (int \<times> GeneratedTestCase) list) io" where
  "split_loop w [] (to_create, to_update) = io_return (to_create, to_update)"
| "split_loop w ((tc, dup_result) # paired) (to_create, to_update) =
     (if is_duplicate dup_result
      then io_bind (console w (PrintMatch tc dup_result)) (\<lambda>_.
             split_loop w paired (to_create, to_update @ [(matched_id dup_result, tc)]))
      else split_loop w paired (to_create @ [tc], to_update))"

fun create_loop ::
  "world \<Rightarrow> int \<Rightarrow> GeneratedTestCase list \<Rightarrow> int list \<times> (int \<times> GeneratedTestCase) list \<Rightarrow>
   (int list \<times> (int \<times> GeneratedTestCase) list) io" where
  "create_loop w sid [] (created, id_tc_pairs) = io_return (created, id_tc_pairs)"
| "create_loop w sid (tc # to_create) (created, id_tc_pairs) =
     io_bind (io_call (CreateTestCase tc sid) (\<lambda>tr. create_test_case w tr tc sid)) (\<lambda>new_id.
       create_loop w sid to_create (created @ [new_id], id_tc_pairs @ [(new_id, tc)]))"

fun update_loop ::
  "world \<Rightarrow> (int \<times> GeneratedTestCase) list \<Rightarrow> int list \<times> (int \<times> GeneratedTestCase) list \<Rightarrow>
   (int list \<times> (int \<times> GeneratedTestCase) list) io" where
  "update_loop w [] (updated, id_tc_pairs) = io_return (updated, id_tc_pairs)"
| "update_loop w ((tc_id, tc) # to_update) (updated, id_tc_pairs) =
     io_bind (io_call (UpdateTestCase tc_id tc) (\<lambda>tr. update_test_case w tr tc_id tc)) (\<lambda>_.
       update_loop w to_update (updated @ [tc_id], id_tc_pairs @ [(tc_id, tc)]))"

definition run :: "world \<Rightarrow> Settings \<Rightarrow> int \<Rightarrow> bool \<Rightarrow> SyncResult io" where
  "run w settings sid dry_run =
     (let result = \<lparr>story_id = sid, created_ids = [], updated_ids = [], skipped_count = 0,
                    folder_map = []\<rparr>
      in
      io_bind (io_call NewADOClient (ado_client_init w)) (\<lambda>_.
      io_bind (io_call (GetUserStory sid) (\<lambda>tr. get_user_story w tr sid)) (\<lambda>story.
      io_bind (show_story w story) (\<lambda>_.
      io_bind (io_call (GetLinkedTestCases sid) (\<lambda>tr. get_linked_test_cases w tr sid)) (\<lambda>existing.
      let analyzer = \<lparr>da_story = story, da_existing = existing\<rparr>
      in
      io_bind (io_lift (compute_delta analyzer)) (\<lambda>delta.
      if has_existing_tests analyzer \<and> delta = []
      then io_return (result\<lparr>skipped_count := int (length existing)\<rparr>)
      else
      io_bind (if delta \<noteq> [] then console w (PrintDelta delta) else io_return ()) (\<lambda>_.
      io_bind (io_call NewTestGenerator (test_generator_init w)) (\<lambda>_.
      io_bind (io_call (Generate story delta) (\<lambda>tr. generate w tr story delta)) (\<lambda>cases.
      io_bind (show_plan w cases) (\<lambda>_.
      if dry_run then io_return result
      else
      let dedup = DedupEngine_init settings existing None
      in
      io_bind (io_lift (check_batch dedup cases)) (\<lambda>paired.
      io_bind (split_loop w paired ([], [])) (\<lambda>(to_create, to_update).
      let folder_mgr = \<lparr>fm_folder_map = []\<rparr>
      in
      io_bind (setup_folders w folder_mgr) (\<lambda>(folder_mgr, m).
      let result = result\<lparr>folder_map := m\<rparr>
      in
      io_bind (create_loop w sid to_create ([], [])) (\<lambda>(created, id_tc_pairs).
      io_bind (update_loop w to_update ([], id_tc_pairs)) (\<lambda>(updated, id_tc_pairs).
      io_bind (assign_many w folder_mgr id_tc_pairs) (\<lambda>_.
      let result = result\<lparr>created_ids := created, updated_ids := updated\<rparr>
      in
      io_bind (show_results w result) (\<lambda>_.
      io_return result)))))))))))))))))"

section \<open>The specification's notions\<close>

text \<open>
  The greatest length of a contiguous block that occurs in both sequences: the
  specification's \<open>L\<close>.
\<close>

definition longest_common_substring :: "'a list \<Rightarrow> 'a list \<Rightarrow> nat" where
  "longest_common_substring a b = Max {length w |w. sublist w a \<and> sublist w b}"

text \<open>
  A line is judged covered when its lowercase form is a substring of the corpus, or
  when \<open>2 \<times> L\<close> divided by the length of the line plus the length of the corpus is at
  least \<open>0.70\<close>, \<open>L\<close> being the length of the longest substring that the lowercase line
  shares with the corpus.
\<close>

definition judged_covered :: "string \<Rightarrow> string \<Rightarrow> bool" where
  "judged_covered line corpus =
     (sublist (str_lower line) corpus \<or>
      7 / 10 \<le> (of_nat (2 * longest_common_substring (str_lower line) corpus) :: rat) /
                of_nat (length line + length corpus))"

text \<open>
  \<open>route\<close> is the folder a category is filed under, and \<open>filing m name t\<close> the calls that
  file the test case \<open>t\<close> into the folder \<open>name\<close> of the folder map \<open>m\<close>: none when the
  name is absent from the map, and otherwise the one call that adds \<open>t\<close> to the suite.
\<close>

definition route :: "string \<Rightarrow> string" where
  "route c = (if c = ''Smoke'' \<or> c = ''Sanity'' \<or> c = ''Regression'' then c else ''Regression'')"

definition filing :: "(string \<times> int) list \<Rightarrow> string \<Rightarrow> int \<Rightarrow> call list" where
  "filing m name test_case_id =
     (case map_of m name of
        None \<Rightarrow> []
      | Some suite_id \<Rightarrow> [AddTestToSuite suite_id test_case_id])"

text \<open>The collaborator calls that change the remote state.\<close>

definition is_write :: "call \<Rightarrow> bool" where
  "is_write c =
     (case c of
        CreateTestCase tc sid \<Rightarrow> True
      | UpdateTestCase tc_id tc \<Rightarrow> True
      | AddTestToSuite suite_id tc_id \<Rightarrow> True
      | EnsureFolders \<Rightarrow> True
      | _ \<Rightarrow> False)"

section \<open>Notions of the proofs\<close>

text \<open>
  The window invariant of a match, the positions of an element, and the quantities
  that describe what the main loop of \<^const>\<open>find_longest_match\<close> computes.
\<close>

definition good :: "nat \<Rightarrow> nat \<Rightarrow> match \<Rightarrow> bool" where
  "good alo ahi m = (case m of (bi, bj, k) \<Rightarrow> alo \<le> bi \<and> ((k = 0 \<and> bi = alo) \<or> bi + k \<le> ahi))"

definition positions :: "'a list \<Rightarrow> 'a \<Rightarrow> nat list" where
  "positions b x = filter (\<lambda>j. b ! j = x) [0..<length b]"

definition hit :: "'a SequenceMatcher \<Rightarrow> nat \<Rightarrow> nat \<Rightarrow> nat \<Rightarrow> nat \<Rightarrow> bool" where
  "hit sm blo bhi i j \<longleftrightarrow> blo \<le> j \<and> j < bhi \<and> j \<in> set (b2j_get (sm_b2j sm) (sm_a sm ! i))"

fun run_len :: "'a SequenceMatcher \<Rightarrow> nat \<Rightarrow> nat \<Rightarrow> nat \<Rightarrow> nat \<Rightarrow> nat \<Rightarrow> nat" where
  "run_len sm alo blo bhi i j =
     (if hit sm blo bhi i j
      then (if alo < i \<and> blo < j then run_len sm alo blo bhi (i - 1) (j - 1) else 0) + 1
      else 0)"

declare run_len.simps [simp del]

definition upd :: "'a SequenceMatcher \<Rightarrow> nat \<Rightarrow> nat \<Rightarrow> nat \<Rightarrow> nat \<Rightarrow> nat \<Rightarrow> match \<Rightarrow> match" where
  "upd sm alo blo bhi i j best =
     (case best of (bi, bj, k) \<Rightarrow>
        if run_len sm alo blo bhi i j > k
        then (Suc i - run_len sm alo blo bhi i j, Suc j - run_len sm alo blo bhi i j,
              run_len sm alo blo bhi i j)
        else best)"

definition row_of :: "'a SequenceMatcher \<Rightarrow> nat \<Rightarrow> nat \<Rightarrow> nat \<Rightarrow> nat \<Rightarrow> j2len" where
  "row_of sm alo blo bhi n =
     (\<lambda>z. if 0 < n \<and> alo < n \<and> 0 \<le> z \<and> 0 < run_len sm alo blo bhi (n - 1) (nat z)
          then Some (run_len sm alo blo bhi (n - 1) (nat z)) else None)"

definition well_formed :: "'a SequenceMatcher \<Rightarrow> bool" where
  "well_formed sm \<longleftrightarrow>
     sm_bjunk sm = [] \<and>
     (\<forall>x. b2j_get (sm_b2j sm) x = positions (sm_b sm) x \<or> b2j_get (sm_b2j sm) x = [])"

definition row_js :: "'a SequenceMatcher \<Rightarrow> nat \<Rightarrow> nat \<Rightarrow> nat \<Rightarrow> nat list" where
  "row_js sm blo bhi i = filter (\<lambda>j. blo \<le> j \<and> j < bhi) (b2j_get (sm_b2j sm) (sm_a sm ! i))"

definition main_best ::
  "'a SequenceMatcher \<Rightarrow> nat \<Rightarrow> nat \<Rightarrow> nat \<Rightarrow> nat \<Rightarrow> nat \<Rightarrow> match \<Rightarrow> match" where
  "main_best sm alo ahi blo bhi i best =
     fold (\<lambda>i'. fold (upd sm alo blo bhi i') (row_js sm blo bhi i')) [i..<ahi] best"

definition in_window :: "nat \<Rightarrow> nat \<Rightarrow> nat \<Rightarrow> nat \<Rightarrow> match \<Rightarrow> bool" where
  "in_window alo ahi blo bhi m =
     (case m of (bi, bj, k) \<Rightarrow>
        (k = 0 \<and> bi = alo \<and> bj = blo) \<or>
        (0 < k \<and> alo \<le> bi \<and> bi + k \<le> ahi \<and> blo \<le> bj \<and> bj + k \<le> bhi))"

definition is_block :: "'a SequenceMatcher \<Rightarrow> match \<Rightarrow> bool" where
  "is_block sm m = (case m of (bi, bj, k) \<Rightarrow> \<forall>t<k. sm_a sm ! (bi + t) = sm_b sm ! (bj + t))"

definition queue_ok :: "'a SequenceMatcher \<Rightarrow> (nat \<times> nat \<times> nat \<times> nat) list \<Rightarrow> bool" where
  "queue_ok sm queue =
     list_all (\<lambda>(alo, ahi, blo, bhi). alo \<le> ahi \<and> ahi \<le> length (sm_a sm) \<and>
                                       blo \<le> bhi \<and> bhi \<le> length (sm_b sm)) queue"

definition on_diag :: "match \<Rightarrow> bool" where
  "on_diag m = (fst m = fst (snd m))"

text \<open>
  No element of \<open>b\<close> is popular: \<open>b\<close> has fewer than 200 elements, or none of them occurs
  more than \<open>n div 100 + 1\<close> times.
\<close>

definition popular_free :: "'a list \<Rightarrow> bool" where
  "popular_free b \<longleftrightarrow>
     length b < 200 \<or> list_all (\<lambda>x. count_list b x \<le> length b div 100 + 1) b"

text \<open>
  The calls of \<^verbatim>\<open>if suite_id: add_test_to_suite(suite_id, test_case_id)\<close>, \<open>suite_id\<close> being
  the result of a lookup: none when the lookup gives \<^verbatim>\<open>None\<close> or \<open>0\<close>.
\<close>

definition truthy_filing :: "int option \<Rightarrow> int \<Rightarrow> call list" where
  "truthy_filing suite_id test_case_id =
     (case suite_id of
        None \<Rightarrow> []
      | Some s \<Rightarrow> if s \<noteq> 0 then [AddTestToSuite s test_case_id] else [])"

section \<open>Concrete inputs\<close>

definition story_blank :: UserStory where
  "story_blank =
     \<lparr>us_id = 1, us_title = ''t'', us_description = ''d'',
      acceptance_criteria = ''- '' @ [CHR 0x0D, CHR 0x0A] @ '' 1) '' @ newline,
      us_priority = 2, us_tags = [], us_state = ''New''\<rparr>"

definition tc_login :: ExistingTestCase where
  "tc_login =
     \<lparr>etc_id = 7, etc_title = ''Verify user login'',
      etc_steps = [\<lparr>action = ''user logs in'', expected_result = ''dashboard shown''\<rparr>],
      etc_priority = 2, etc_tags = [], revision = 1\<rparr>"

definition story_login :: UserStory where
  "story_login =
     \<lparr>us_id = 1, us_title = ''Login'', us_description = ''d'',
      acceptance_criteria = ''- User can log in'' @ newline @ ''- User can reset password'',
      us_priority = 2, us_tags = [], us_state = ''New''\<rparr>"

definition gen_login :: GeneratedTestCase where
  "gen_login =
     \<lparr>gtc_title = ''Verify user login'', gtc_given = ''User logs in'', gtc_when = ''dashboard'',
      gtc_then = ''shown'', gtc_steps = [], gtc_priority = 2, gtc_tags = [''Smoke''],
      category = ''Smoke'', test_type = ''Positive''\<rparr>"

definition story_covered :: UserStory where
  "story_covered =
     \<lparr>us_id = 1, us_title = ''Login'', us_description = ''d'',
      acceptance_criteria = ''- User logs in'' @ newline @ ''- Dashboard shown'',
      us_priority = 2, us_tags = [], us_state = ''New''\<rparr>"

definition gen_blank :: GeneratedTestCase where
  "gen_blank =
     \<lparr>gtc_title = [], gtc_given = [], gtc_when = [], gtc_then = [], gtc_steps = [],
      gtc_priority = 2, gtc_tags = [], category = ''Regression'', test_type = ''Positive''\<rparr>"

definition tc_blank :: ExistingTestCase where
  "tc_blank =
     \<lparr>etc_id = 5, etc_title = [], etc_steps = [], etc_priority = 2, etc_tags = [], revision = 1\<rparr>"

definition folders_zero :: "(string \<times> int) list" where
  "folders_zero = [(''Complete Test Cases'', 0), (''Smoke'', 12)]"

definition folders4 :: "(string \<times> int) list" where
  "folders4 = [(''Complete Test Cases'', 10), (''Regression'', 11), (''Smoke'', 12), (''Sanity'', 13)]"

definition tc_long :: ExistingTestCase where
  "tc_long =
     \<lparr>etc_id = 9, etc_title = replicate 198 CHR ''x'' @ ''yz'', etc_steps = [],
      etc_priority = 2, etc_tags = [], revision = 1\<rparr>"

definition line_long :: string where
  "line_long = ''yz'' @ replicate 190 CHR ''x''"

definition world_fixed ::
  "UserStory \<Rightarrow> ExistingTestCase list \<Rightarrow> GeneratedTestCase list \<Rightarrow> world" where
  "world_fixed story existing cases =
     \<lparr>ado_client_init = (\<lambda>tr. Inr ()),
      get_user_story = (\<lambda>tr sid. Inr story),
      get_linked_test_cases = (\<lambda>tr sid. Inr existing),
      test_generator_init = (\<lambda>tr. Inr ()),
      generate = (\<lambda>tr story delta. Inr cases),
      ensure_folders = (\<lambda>tr. Inr [(''Complete Test Cases'', 10), (''Regression'', 11),
                                    (''Smoke'', 12), (''Sanity'', 13)]),
      create_test_case = (\<lambda>tr tc sid. Inr (100 + int (length tr))),
      update_test_case = (\<lambda>tr tc_id tc. Inr ()),
      add_test_to_suite = (\<lambda>tr suite_id tc_id. Inr ()),
      console_print = (\<lambda>tr c. Inr ())\<rparr>"

section \<open>Termination of the block search\<close>

text \<open>
  A match \<open>(i, j, k)\<close> that \<^const>\<open>find_longest_match\<close> returns for the window
  \<open>alo..ahi\<close> starts at or after \<open>alo\<close>, and ends at or before \<open>ahi\<close> unless it is the
  empty match at \<open>alo\<close>. So every window that \<^const>\<open>gmb_loop\<close> pushes is shorter than
  the one it popped.
\<close>

lemma flm_inner_good:
  assumes "\<forall>z v. j2len z = Some v \<longrightarrow> v \<le> i - alo" "alo \<le> i" "i < ahi"
  shows "good alo ahi best \<Longrightarrow> (\<forall>z v. new z = Some v \<longrightarrow> v \<le> Suc i - alo) \<Longrightarrow>
         good alo ahi (snd (flm_inner j2len i blo bhi js (new, best))) \<and>
         (\<forall>z v. fst (flm_inner j2len i blo bhi js (new, best)) z = Some v \<longrightarrow> v \<le> Suc i - alo)"
proof (induction js arbitrary: new best)
  case Nil
  then show ?case by simp
next
  case (Cons j js)
  obtain bi bj k where best: "best = (bi, bj, k)" by (cases best) auto
  define k' where "k' = (case j2len (int j - 1) of None \<Rightarrow> 0 | Some v \<Rightarrow> v) + 1"
  define new' where "new' = new(int j \<mapsto> k')"
  have eq: "flm_inner j2len i blo bhi (j # js) (new, best) =
     (if j < blo then flm_inner j2len i blo bhi js (new, best)
      else if j \<ge> bhi then (new, best)
      else if k' > k then flm_inner j2len i blo bhi js (new', Suc i - k', Suc j - k', k')
      else flm_inner j2len i blo bhi js (new', best))"
    by (simp add: best k'_def new'_def Let_def)
  have k': "k' \<le> Suc i - alo" "0 < k'"
    using assms(1,2) by (auto simp: k'_def split: option.splits dest!: spec[of _ "int j - 1"])
  have g': "good alo ahi (Suc i - k', Suc j - k', k')"
    using k' assms(2,3) by (auto simp: good_def)
  have n': "\<forall>z v. new' z = Some v \<longrightarrow> v \<le> Suc i - alo"
    using Cons.prems(2) k' by (auto simp: new'_def)
  consider (skip) "j < blo" | (stop) "\<not> j < blo" "bhi \<le> j"
    | (better) "\<not> j < blo" "\<not> bhi \<le> j" "k < k'"
    | (keep) "\<not> j < blo" "\<not> bhi \<le> j" "\<not> k < k'"
    by blast
  then show ?case
  proof cases
    case skip
    then have "flm_inner j2len i blo bhi (j # js) (new, best) = flm_inner j2len i blo bhi js (new, best)"
      unfolding eq by simp
    then show ?thesis using Cons.IH[OF Cons.prems(1) Cons.prems(2)] by simp
  next
    case stop
    then have "flm_inner j2len i blo bhi (j # js) (new, best) = (new, best)"
      unfolding eq by simp
    then show ?thesis using Cons.prems by simp
  next
    case better
    then have "flm_inner j2len i blo bhi (j # js) (new, best) =
        flm_inner j2len i blo bhi js (new', Suc i - k', Suc j - k', k')"
      unfolding eq by simp
    then show ?thesis using Cons.IH[OF g' n'] by simp
  next
    case keep
    then have "flm_inner j2len i blo bhi (j # js) (new, best) =
        flm_inner j2len i blo bhi js (new', best)"
      unfolding eq by simp
    then show ?thesis using Cons.IH[OF Cons.prems(1) n'] by simp
  qed
qed

lemma flm_outer_good:
  "alo \<le> i \<Longrightarrow> \<forall>z v. fst st z = Some v \<longrightarrow> v \<le> i - alo \<Longrightarrow> good alo ahi (snd st) \<Longrightarrow>
   flm_outer sm i ahi blo bhi st = Inr r \<Longrightarrow> good alo ahi r"
proof (induction sm i ahi blo bhi st rule: flm_outer.induct)
  case (1 sm i ahi blo bhi j2len best)
  show ?case
  proof (cases "i < ahi")
    case False
    with 1 show ?thesis by simp
  next
    case True
    from True "1.prems"(4) obtain x where x: "py_index (sm_a sm) i = Inr x"
      by (auto split: sum.splits)
    let ?st = "flm_inner j2len i blo bhi (b2j_get (sm_b2j sm) x) (Map.empty, best)"
    have inner: "good alo ahi (snd ?st)" "\<forall>z v. fst ?st z = Some v \<longrightarrow> v \<le> Suc i - alo"
      using flm_inner_good[of j2len i alo ahi best Map.empty blo bhi] "1.prems" True
      by auto
    have "flm_outer sm (Suc i) ahi blo bhi ?st = Inr r"
      using "1.prems"(4) True x by simp
    from "1.IH"[OF True x _ _ _ this] inner "1.prems"(1)
    show ?thesis by simp
  qed
qed

lemma extend_left_good:
  "good alo ahi best \<Longrightarrow> extend_left sm junk alo blo best = Inr r \<Longrightarrow> good alo ahi r"
proof (induction sm junk alo blo best rule: extend_left.induct)
  case (1 sm junk alo blo besti bestj bestsize)
  show ?case
  proof (cases "besti > alo \<and> bestj > blo")
    case False
    with 1 show ?thesis by auto
  next
    case True
    then show ?thesis
      using "1.prems" "1.IH"
      by (auto simp: good_def split: sum.splits if_splits)
  qed
qed

lemma extend_right_good:
  "good alo ahi best \<Longrightarrow> extend_right sm junk ahi bhi best = Inr r \<Longrightarrow> good alo ahi r"
proof (induction sm junk ahi bhi best rule: extend_right.induct)
  case (1 sm junk ahi bhi besti bestj bestsize)
  show ?case
  proof (cases "besti + bestsize < ahi \<and> bestj + bestsize < bhi")
    case False
    with 1 show ?thesis by auto
  next
    case True
    then show ?thesis
      using "1.prems" "1.IH"
      by (auto simp: good_def split: sum.splits if_splits)
  qed
qed

lemma find_longest_match_good:
  assumes "find_longest_match sm alo ahi blo bhi = Inr r"
  shows "good alo ahi r"
proof -
  from assms obtain r1 r2 r3 r4 where
    r1: "flm_outer sm alo ahi blo bhi (Map.empty, (alo, blo, 0)) = Inr r1" and
    r2: "extend_left sm False alo blo r1 = Inr r2" and
    r3: "extend_right sm False ahi bhi r2 = Inr r3" and
    r4: "extend_left sm True alo blo r3 = Inr r4" and
    r5: "extend_right sm True ahi bhi r4 = Inr r"
    by (auto simp: find_longest_match_def bind_def split: sum.splits)
  have "good alo ahi r1"
    using flm_outer_good[OF _ _ _ r1, of alo] by (simp add: good_def)
  from extend_left_good[OF this r2] have "good alo ahi r2" .
  from extend_right_good[OF this r3] have "good alo ahi r3" .
  from extend_left_good[OF this r4] have "good alo ahi r4" .
  from extend_right_good[OF this r5] show ?thesis .
qed

termination gmb_loop
proof (relation "measure (\<lambda>(sm, queue, mb). sum_list (map (\<lambda>(alo, ahi, blo, bhi). 2 * (ahi - alo) + 1) queue))",
    goal_cases)
  case 1
  show ?case by simp
next
  case (2 sm alo ahi blo bhi queue mb r i jk j k)
  then have "good alo ahi (i, j, k)"
    using find_longest_match_good[of sm alo ahi blo bhi] by simp
  with 2 show ?case by (auto simp: good_def)
next
  case 3
  then show ?case by simp
qed

section \<open>The dictionary \<open>b2j\<close>\<close>

text \<open>
  For a matcher built by \<^const>\<open>SequenceMatcher_init\<close>, \<open>b2j\<close> maps an element to the
  ascending list of all its positions in \<open>b\<close>, or to nothing when the element is
  popular; no element is popular when \<open>b\<close> has fewer than 200 elements.
\<close>

lemma b2j_get_setdefault_append:
  "b2j_get (setdefault_append elt i m) x = (if x = elt then b2j_get m x @ [i] else b2j_get m x)"
  by (induction m) (auto simp: b2j_get_def)

lemma b2j_get_Nil [simp]: "b2j_get [] x = []"
  by (simp add: b2j_get_def)

lemma chain_fold_get:
  "b2j_get (fold (\<lambda>(i, elt) b2j. setdefault_append elt i b2j) (enumerate n xs) m) x =
   b2j_get m x @ filter (\<lambda>j. xs ! (j - n) = x) [n..<n + length xs]"
proof (induction xs arbitrary: n m)
  case Nil
  then show ?case by simp
next
  case (Cons y ys)
  let ?f = "\<lambda>(i, elt) b2j. setdefault_append elt i b2j"
  have upt: "[n..<n + length (y # ys)] = n # [Suc n..<Suc n + length ys]"
    by (simp add: upt_rec)
  have flt: "filter (\<lambda>j. (y # ys) ! (j - n) = x) [Suc n..<Suc n + length ys] =
             filter (\<lambda>j. ys ! (j - Suc n) = x) [Suc n..<Suc n + length ys]"
    by (rule filter_cong) (auto simp: nth_Cons')
  have "b2j_get (fold ?f (enumerate n (y # ys)) m) x =
        b2j_get (fold ?f (enumerate (Suc n) ys) (setdefault_append y n m)) x"
    by simp
  also have "\<dots> = b2j_get (setdefault_append y n m) x @
                  filter (\<lambda>j. ys ! (j - Suc n) = x) [Suc n..<Suc n + length ys]"
    by (rule Cons.IH)
  also have "\<dots> = b2j_get m x @ filter (\<lambda>j. (y # ys) ! (j - n) = x) (n # [Suc n..<Suc n + length ys])"
    unfolding filter.simps flt by (simp add: b2j_get_setdefault_append)
  finally show ?case unfolding upt .
qed

lemma b2j_get_filter:
  "b2j_get (filter (\<lambda>(elt, idxs). elt \<notin> P) m) x = (if x \<in> P then [] else b2j_get m x)"
  by (induction m) (auto simp: b2j_get_def)

lemma chain_fold_positions:
  "b2j_get (fold (\<lambda>(i, elt) b2j. setdefault_append elt i b2j) (enumerate 0 b) []) x = positions b x"
  using chain_fold_get[of 0 b "[]" x] by (simp add: positions_def)

lemma chain_b_get:
  "b2j_get (fst (chain_b b)) x = positions b x \<or> b2j_get (fst (chain_b b)) x = []"
  by (simp add: chain_b_def Let_def b2j_get_filter chain_fold_positions)

lemma chain_b_get_short:
  "length b < 200 \<Longrightarrow> b2j_get (fst (chain_b b)) x = positions b x"
  by (simp add: chain_b_def Let_def chain_fold_positions)

lemma setdefault_append_keys:
  "map fst (setdefault_append elt i m) =
     (if elt \<in> fst ` set m then map fst m else map fst m @ [elt])"
  by (induction m) (auto simp: image_iff split: if_splits)

lemma chain_fold_distinct:
  "distinct (map fst m) \<Longrightarrow>
   distinct (map fst (fold (\<lambda>(i, elt) b2j. setdefault_append elt i b2j) xs m))"
  by (induction xs arbitrary: m) (auto simp: setdefault_append_keys split: prod.splits)

lemma b2j_get_member: "distinct (map fst m) \<Longrightarrow> (x, idxs) \<in> set m \<Longrightarrow> b2j_get m x = idxs"
  by (simp add: b2j_get_def)

lemma length_positions: "length (positions b x) = count_list b x"
proof -
  have "filter (\<lambda>y. y = x) b = filter (\<lambda>y. y = x) (map ((!) b) [0..<length b])"
    by (simp add: map_nth)
  also have "\<dots> = map ((!) b) (filter (\<lambda>j. b ! j = x) [0..<length b])"
    by (simp add: filter_map comp_def)
  finally have "length (filter (\<lambda>y. y = x) b) = length (positions b x)"
    by (simp add: positions_def)
  moreover have "count_list b x = length (filter (\<lambda>y. y = x) b)"
    by (induction b) auto
  ultimately show ?thesis by simp
qed

lemma chain_b_get_popular_free:
  assumes "popular_free b"
  shows "b2j_get (fst (chain_b b)) x = positions b x"
proof (cases "length b < 200")
  case True
  then show ?thesis by (simp add: chain_b_def Let_def chain_fold_positions)
next
  case False
  let ?m = "fold (\<lambda>(i, elt) b2j. setdefault_append elt i b2j) (enumerate 0 b) []"
  let ?pop = "map fst (filter (\<lambda>(elt, idxs). length idxs > length b div 100 + 1) ?m)"
  have d: "distinct (map fst ?m)" by (rule chain_fold_distinct) simp
  have "x \<notin> set ?pop"
  proof
    assume "x \<in> set ?pop"
    then obtain idxs where mem: "(x, idxs) \<in> set ?m" and big: "length idxs > length b div 100 + 1"
      by auto
    from b2j_get_member[OF d mem] have "idxs = positions b x"
      by (simp add: chain_fold_positions)
    with big have c: "count_list b x > length b div 100 + 1" by (simp add: length_positions)
    then have "x \<in> set b" by (metis count_notin not_less_zero)
    with assms False have "count_list b x \<le> length b div 100 + 1"
      by (auto simp: popular_free_def list_all_iff)
    with c show False by simp
  qed
  then show ?thesis
    using False by (simp add: chain_b_def Let_def b2j_get_filter chain_fold_positions)
qed

lemma chain_b_junk: "fst (snd (chain_b b)) = []"
  by (simp add: chain_b_def Let_def)

lemma sm_init_simps:
  "sm_a (SequenceMatcher_init a b) = a"
  "sm_b (SequenceMatcher_init a b) = b"
  "sm_bjunk (SequenceMatcher_init a b) = []"
  "sm_b2j (SequenceMatcher_init a b) = fst (chain_b b)"
  by (auto simp: SequenceMatcher_init_def chain_b_def Let_def split: prod.splits)

section \<open>The longest-match search, characterised\<close>

text \<open>
  \<open>run_len i j\<close> is the value that the search stores in \<open>j2len\<close> for row \<open>i\<close> at \<open>j\<close>:
  the length of the longest common run that ends at \<open>a[i]\<close> and \<open>b[j]\<close>, stays inside
  the window and uses only positions listed in \<open>b2j\<close>. The main loop is a fold of
  \<open>upd\<close>, which replaces the best match by a strictly longer one, over the rows in
  order and over the positions of each row in ascending order.
\<close>

lemma run_len_pos_iff: "0 < run_len sm alo blo bhi i j \<longleftrightarrow> hit sm blo bhi i j"
  by (subst run_len.simps) simp

lemma lookup_prev:
  assumes "hit sm blo bhi i j"
  shows "(case row_of sm alo blo bhi i (int j - 1) of None \<Rightarrow> 0 | Some v \<Rightarrow> v) + 1 =
         run_len sm alo blo bhi i j"
proof -
  have low: "run_len sm alo blo bhi (i - 1) (j - 1) = 0" if "\<not> blo < j" "1 \<le> j"
    using that by (subst run_len.simps) (auto simp: hit_def)
  have "(case row_of sm alo blo bhi i (int j - 1) of None \<Rightarrow> 0 | Some v \<Rightarrow> v) =
        (if alo < i \<and> blo < j then run_len sm alo blo bhi (i - 1) (j - 1) else 0)"
  proof (cases "alo < i \<and> 1 \<le> j")
    case True
    then have "nat (int j - 1) = j - 1" "0 \<le> int j - 1" by auto
    with True low show ?thesis by (auto simp: row_of_def)
  next
    case False
    then show ?thesis using assms by (auto simp: row_of_def hit_def)
  qed
  then show ?thesis using assms by (subst run_len.simps) simp
qed

lemma flm_inner_char:
  assumes sub: "set js \<subseteq> set (b2j_get (sm_b2j sm) (sm_a sm ! i))" and srt: "sorted js"
  shows "flm_inner (row_of sm alo blo bhi i) i blo bhi js (new, best) =
     (\<lambda>z. if \<exists>j\<in>set js. z = int j \<and> blo \<le> j \<and> j < bhi
           then Some (run_len sm alo blo bhi i (nat z)) else new z,
      fold (upd sm alo blo bhi i) (filter (\<lambda>j. blo \<le> j \<and> j < bhi) js) best)"
  using sub srt
proof (induction js arbitrary: new best)
  case Nil
  then show ?case by simp
next
  case (Cons j js)
  obtain bi bj k where best: "best = (bi, bj, k)" by (cases best) auto
  from Cons.prems have sub': "set js \<subseteq> set (b2j_get (sm_b2j sm) (sm_a sm ! i))"
    and srt': "sorted js" and jin: "j \<in> set (b2j_get (sm_b2j sm) (sm_a sm ! i))"
    and ge: "\<forall>j'\<in>set js. j \<le> j'"
    by auto
  note IH = Cons.IH[OF sub' srt']
  consider (skip) "j < blo" | (stop) "\<not> j < blo" "bhi \<le> j" | (go) "\<not> j < blo" "\<not> bhi \<le> j"
    by blast
  then show ?case
  proof cases
    case skip
    then have "flm_inner (row_of sm alo blo bhi i) i blo bhi (j # js) (new, best) =
               flm_inner (row_of sm alo blo bhi i) i blo bhi js (new, best)"
      by (simp add: best)
    then show ?thesis using skip by (auto simp: IH)
  next
    case stop
    then have e: "flm_inner (row_of sm alo blo bhi i) i blo bhi (j # js) (new, best) = (new, best)"
      by (simp add: best)
    have f: "filter (\<lambda>j. blo \<le> j \<and> j < bhi) (j # js) = []"
      using stop ge by (auto simp: filter_empty_conv)
    have m: "(\<lambda>z. if \<exists>j'\<in>set (j # js). z = int j' \<and> blo \<le> j' \<and> j' < bhi
                  then Some (run_len sm alo blo bhi i (nat z)) else new z) = new"
      using stop ge by (intro ext) auto
    show ?thesis unfolding e f m by simp
  next
    case go
    then have h: "hit sm blo bhi i j" using jin by (simp add: hit_def)
    let ?k = "run_len sm alo blo bhi i j"
    have e: "flm_inner (row_of sm alo blo bhi i) i blo bhi (j # js) (new, best) =
             flm_inner (row_of sm alo blo bhi i) i blo bhi js
               (new(int j \<mapsto> ?k), upd sm alo blo bhi i j best)"
      using go lookup_prev[OF h, of alo] by (simp add: best upd_def Let_def)
    have f: "filter (\<lambda>j. blo \<le> j \<and> j < bhi) (j # js) = j # filter (\<lambda>j. blo \<le> j \<and> j < bhi) js"
      using go by simp
    have m: "(\<lambda>z. if \<exists>j'\<in>set js. z = int j' \<and> blo \<le> j' \<and> j' < bhi
                  then Some (run_len sm alo blo bhi i (nat z)) else (new(int j \<mapsto> ?k)) z) =
             (\<lambda>z. if \<exists>j'\<in>set (j # js). z = int j' \<and> blo \<le> j' \<and> j' < bhi
                  then Some (run_len sm alo blo bhi i (nat z)) else new z)"
      using go by (intro ext) auto
    show ?thesis unfolding e f IH m by simp
  qed
qed

lemma well_formed_init: "well_formed (SequenceMatcher_init a b)"
  using chain_b_get[of b] by (auto simp: well_formed_def sm_init_simps)

lemma sorted_positions: "sorted (positions b x)"
  unfolding positions_def by (rule sorted_wrt_filter) simp

lemma well_formed_sorted: "well_formed sm \<Longrightarrow> sorted (b2j_get (sm_b2j sm) x)"
  using sorted_positions[of "sm_b sm" x] by (auto simp: well_formed_def dest!: spec[of _ x])

lemma row_of_alo: "row_of sm alo blo bhi alo = Map.empty"
  by (simp add: row_of_def)

lemma flm_inner_row:
  assumes "well_formed sm" "alo \<le> i"
  shows "flm_inner (row_of sm alo blo bhi i) i blo bhi (b2j_get (sm_b2j sm) (sm_a sm ! i))
           (Map.empty, best) =
         (row_of sm alo blo bhi (Suc i), fold (upd sm alo blo bhi i) (row_js sm blo bhi i) best)"
proof -
  let ?js = "b2j_get (sm_b2j sm) (sm_a sm ! i)"
  have "(\<lambda>z. if \<exists>j\<in>set ?js. z = int j \<and> blo \<le> j \<and> j < bhi
             then Some (run_len sm alo blo bhi i (nat z)) else Map.empty z) =
        row_of sm alo blo bhi (Suc i)"
  proof (intro ext)
    fix z
    have "(\<exists>j\<in>set ?js. z = int j \<and> blo \<le> j \<and> j < bhi) \<longleftrightarrow>
          (0 \<le> z \<and> hit sm blo bhi i (nat z))"
      unfolding hit_def
    proof (intro iffI)
      assume "0 \<le> z \<and> blo \<le> nat z \<and> nat z < bhi \<and> nat z \<in> set ?js"
      then show "\<exists>j\<in>set ?js. z = int j \<and> blo \<le> j \<and> j < bhi"
        by (intro bexI[of _ "nat z"]) auto
    qed auto
    then show "(if \<exists>j\<in>set ?js. z = int j \<and> blo \<le> j \<and> j < bhi
             then Some (run_len sm alo blo bhi i (nat z)) else Map.empty z) =
        row_of sm alo blo bhi (Suc i) z"
      using assms(2) by (simp add: row_of_def run_len_pos_iff)
  qed
  then show ?thesis
    using flm_inner_char[where sm = sm and i = i and alo = alo and blo = blo and bhi = bhi
        and new = Map.empty and best = best and js = ?js,
        OF subset_refl well_formed_sorted[OF assms(1)]]
    by (simp add: row_js_def)
qed

lemma flm_outer_char:
  assumes "well_formed sm" "ahi \<le> length (sm_a sm)"
  shows "alo \<le> i \<Longrightarrow>
         flm_outer sm i ahi blo bhi (row_of sm alo blo bhi i, best) =
         Inr (main_best sm alo ahi blo bhi i best)"
proof (induction "ahi - i" arbitrary: i best)
  case 0
  then show ?case by (simp add: main_best_def)
next
  case (Suc n)
  then have lt: "i < ahi" by simp
  with assms(2) have idx: "py_index (sm_a sm) i = Inr (sm_a sm ! i)"
    by (simp add: py_index_def)
  have n: "n = ahi - Suc i" using Suc.hyps(2) by simp
  have le: "alo \<le> Suc i" using Suc.prems by simp
  have upt: "[i..<ahi] = i # [Suc i..<ahi]" using lt by (simp add: upt_rec)
  show ?case
    using lt idx flm_inner_row[OF assms(1) Suc.prems] Suc.hyps(1)[OF n le]
    by (simp add: main_best_def upt)
qed

lemma run_len_le:
  "alo \<le> i \<Longrightarrow> run_len sm alo blo bhi i j \<le> Suc i - alo \<and> run_len sm alo blo bhi i j \<le> Suc j - blo"
proof (induction sm alo blo bhi i j rule: run_len.induct)
  case (1 sm alo blo bhi i j)
  show ?case
  proof (cases "hit sm blo bhi i j")
    case False
    then show ?thesis by (subst run_len.simps, subst (2) run_len.simps) simp
  next
    case True
    then have bj: "blo \<le> j" by (simp add: hit_def)
    show ?thesis
    proof (cases "alo < i \<and> blo < j")
      case False
      then show ?thesis using True "1.prems" bj
        by (subst run_len.simps, subst (2) run_len.simps) auto
    next
      case t: True
      then have "alo \<le> i - 1" by linarith
      from "1.IH"[OF True t this] t show ?thesis
        by (subst run_len.simps, subst (2) run_len.simps) (auto simp: True)
    qed
  qed
qed

lemma hit_nth:
  "well_formed sm \<Longrightarrow> hit sm blo bhi i j \<Longrightarrow> j < length (sm_b sm) \<and> sm_b sm ! j = sm_a sm ! i"
  by (auto simp: well_formed_def hit_def positions_def dest!: spec[of _ "sm_a sm ! i"])

lemma run_len_match:
  "well_formed sm \<Longrightarrow> t < run_len sm alo blo bhi i j \<Longrightarrow> sm_a sm ! (i - t) = sm_b sm ! (j - t)"
proof (induction sm alo blo bhi i j arbitrary: t rule: run_len.induct)
  case (1 sm alo blo bhi i j)
  from "1.prems"(2) have h: "hit sm blo bhi i j"
    using run_len_pos_iff[of sm alo blo bhi i j] by simp
  show ?case
  proof (cases t)
    case 0
    then show ?thesis using hit_nth[OF "1.prems"(1) h] by simp
  next
    case (Suc t')
    with "1.prems"(2) h have c: "alo < i \<and> blo < j" and
      lt: "t' < run_len sm alo blo bhi (i - 1) (j - 1)"
      by (subst (asm) run_len.simps, simp split: if_splits)+
    from "1.IH"[OF h c "1.prems"(1) lt] c Suc show ?thesis by simp
  qed
qed

lemma upd_cases:
  "upd sm alo blo bhi i j best = best \<and> run_len sm alo blo bhi i j \<le> snd (snd best) \<or>
   upd sm alo blo bhi i j best =
     (Suc i - run_len sm alo blo bhi i j, Suc j - run_len sm alo blo bhi i j,
      run_len sm alo blo bhi i j) \<and> snd (snd best) < run_len sm alo blo bhi i j"
  by (cases best) (auto simp: upd_def)

lemma main_best_induct:
  assumes "P best"
    and "\<And>i j b. i0 \<le> i \<Longrightarrow> i < ahi \<Longrightarrow> j \<in> set (row_js sm blo bhi i) \<Longrightarrow> P b \<Longrightarrow>
           P (upd sm alo blo bhi i j b)"
  shows "P (main_best sm alo ahi blo bhi i0 best)"
proof -
  have inner: "P (fold (upd sm alo blo bhi i) js b)"
    if "i0 \<le> i" "i < ahi" "set js \<subseteq> set (row_js sm blo bhi i)" "P b" for i js b
    using that(3,4)
  proof (induction js arbitrary: b)
    case Nil
    then show ?case by simp
  next
    case (Cons j js)
    then show ?case using assms(2)[OF that(1,2), of j b] by simp
  qed
  have outer: "P (fold (\<lambda>i'. fold (upd sm alo blo bhi i') (row_js sm blo bhi i')) is b)"
    if "set is \<subseteq> {i0..<ahi}" "P b" for "is" b
    using that
  proof (induction "is" arbitrary: b)
    case Nil
    then show ?case by simp
  next
    case (Cons i "is")
    then show ?case using inner[of i "row_js sm blo bhi i" b] by simp
  qed
  show ?thesis
    unfolding main_best_def by (rule outer) (use assms(1) in auto)
qed

lemma row_js_hit: "j \<in> set (row_js sm blo bhi i) \<longleftrightarrow> hit sm blo bhi i j"
  by (auto simp: row_js_def hit_def)

lemma main_best_in_window:
  assumes "alo \<le> i0"
  shows "in_window alo ahi blo bhi best \<Longrightarrow> in_window alo ahi blo bhi (main_best sm alo ahi blo bhi i0 best)"
proof (rule main_best_induct, assumption)
  fix i j b
  assume i: "i0 \<le> i" "i < ahi" and j: "j \<in> set (row_js sm blo bhi i)"
    and b: "in_window alo ahi blo bhi b"
  from j have h: "hit sm blo bhi i j" by (simp add: row_js_hit)
  then have jr: "blo \<le> j" "j < bhi" by (auto simp: hit_def)
  have pos: "0 < run_len sm alo blo bhi i j" using h by (simp add: run_len_pos_iff)
  have le: "run_len sm alo blo bhi i j \<le> Suc i - alo" "run_len sm alo blo bhi i j \<le> Suc j - blo"
    using run_len_le[of alo i sm blo bhi j] assms i by auto
  show "in_window alo ahi blo bhi (upd sm alo blo bhi i j b)"
    using upd_cases[of sm alo blo bhi i j b] b pos le i jr assms
    by (auto simp: in_window_def)
qed

lemma main_best_is_block:
  assumes "well_formed sm" "alo \<le> i0"
  shows "is_block sm best \<Longrightarrow> is_block sm (main_best sm alo ahi blo bhi i0 best)"
proof (rule main_best_induct, assumption)
  fix i j b
  assume i: "i0 \<le> i" "i < ahi" and b: "is_block sm b"
  let ?k = "run_len sm alo blo bhi i j"
  have le: "?k \<le> Suc i" "?k \<le> Suc j"
    using run_len_le[of alo i sm blo bhi j] assms i by auto
  have "sm_a sm ! (Suc i - ?k + t) = sm_b sm ! (Suc j - ?k + t)" if "t < ?k" for t
  proof -
    define u where "u = ?k - 1 - t"
    have "u < ?k" using that by (simp add: u_def)
    from run_len_match[OF assms(1) this]
    have "sm_a sm ! (i - u) = sm_b sm ! (j - u)" .
    moreover have "i - u = Suc i - ?k + t" "j - u = Suc j - ?k + t"
      using that le by (auto simp: u_def)
    ultimately show ?thesis by simp
  qed
  then show "is_block sm (upd sm alo blo bhi i j b)"
    using upd_cases[of sm alo blo bhi i j b] b
    by (auto simp: is_block_def)
qed

lemma upd_mono: "snd (snd b) \<le> snd (snd (upd sm alo blo bhi i j b))"
  using upd_cases[of sm alo blo bhi i j b] by auto

lemma upd_ge: "run_len sm alo blo bhi i j \<le> snd (snd (upd sm alo blo bhi i j b))"
  using upd_cases[of sm alo blo bhi i j b] by auto

lemma fold_upd_mono: "snd (snd b) \<le> snd (snd (fold (upd sm alo blo bhi i) js b))"
proof (induction js arbitrary: b)
  case Nil
  then show ?case by simp
next
  case (Cons j js)
  show ?case using upd_mono[of b sm alo blo bhi i j] Cons[of "upd sm alo blo bhi i j b"]
    by simp
qed

lemma fold_upd_ge:
  "j \<in> set js \<Longrightarrow> run_len sm alo blo bhi i j \<le> snd (snd (fold (upd sm alo blo bhi i) js b))"
proof (induction js arbitrary: b)
  case Nil
  then show ?case by simp
next
  case (Cons j' js)
  show ?case
  proof (cases "j = j'")
    case True
    then show ?thesis
      using upd_ge[of sm alo blo bhi i j b] fold_upd_mono[of "upd sm alo blo bhi i j b" sm alo blo bhi i js]
      by simp
  next
    case False
    with Cons show ?thesis by simp
  qed
qed

lemma main_best_mono: "snd (snd b) \<le> snd (snd (main_best sm alo ahi blo bhi i0 b))"
  by (rule main_best_induct) (auto intro: order_trans[OF _ upd_mono])

lemma main_best_ge:
  assumes "i0 \<le> i" "i < ahi"
  shows "run_len sm alo blo bhi i j \<le> snd (snd (main_best sm alo ahi blo bhi i0 b))"
proof (cases "hit sm blo bhi i j")
  case False
  then have "run_len sm alo blo bhi i j = 0" using run_len_pos_iff[of sm alo blo bhi i j] by simp
  then show ?thesis by simp
next
  case True
  then have jin: "j \<in> set (row_js sm blo bhi i)" by (simp add: row_js_hit)
  have split: "[i0..<ahi] = [i0..<i] @ i # [Suc i..<ahi]"
    using assms by (metis le_Suc_ex upt_add_eq_append upt_rec zero_less_iff_neq_zero less_imp_le_nat upt_conv_Cons)
  let ?b1 = "main_best sm alo i blo bhi i0 b"
  let ?b2 = "fold (upd sm alo blo bhi i) (row_js sm blo bhi i) ?b1"
  have "main_best sm alo ahi blo bhi i0 b = main_best sm alo ahi blo bhi (Suc i) ?b2"
    by (simp add: main_best_def split)
  moreover have "run_len sm alo blo bhi i j \<le> snd (snd ?b2)"
    by (rule fold_upd_ge[OF jin])
  ultimately show ?thesis
    using main_best_mono[of ?b2 sm alo ahi blo bhi "Suc i"] by simp
qed

declare extend_left.simps [simp del] extend_right.simps [simp del]

lemma isbjunk_wf [simp]: "well_formed sm \<Longrightarrow> isbjunk sm y = False"
  by (simp add: well_formed_def isbjunk_def)

lemma extend_left_char:
  assumes wf: "well_formed sm"
  shows "bi \<le> length (sm_a sm) \<Longrightarrow> bj \<le> length (sm_b sm) \<Longrightarrow>
    \<exists>e. extend_left sm False alo blo (bi, bj, k) = Inr (bi - e, bj - e, k + e) \<and>
        e \<le> bi - alo \<and> e \<le> bj - blo \<and>
        (\<forall>t<e. sm_a sm ! (bi - Suc t) = sm_b sm ! (bj - Suc t)) \<and>
        (alo < bi - e \<and> blo < bj - e \<longrightarrow> sm_a sm ! (bi - e - 1) \<noteq> sm_b sm ! (bj - e - 1))"
proof (induction bi arbitrary: bj k)
  case 0
  show ?case by (rule exI[of _ 0]) (simp add: extend_left.simps)
next
  case (Suc bi)
  show ?case
  proof (cases "Suc bi > alo \<and> bj > blo \<and> sm_a sm ! bi = sm_b sm ! (bj - 1)")
    case False
    have "extend_left sm False alo blo (Suc bi, bj, k) = Inr (Suc bi, bj, k)"
      using False Suc.prems wf by (subst extend_left.simps) (auto simp: py_index_def)
    then show ?thesis using False by (intro exI[of _ 0]) auto
  next
    case True
    then obtain bj' where bj: "bj = Suc bj'" by (cases bj) auto
    from Suc.prems bj have p: "bi \<le> length (sm_a sm)" "bj' \<le> length (sm_b sm)" by auto
    from Suc.IH[OF p, of "k + 1"] obtain e where
      e: "extend_left sm False alo blo (bi, bj', k + 1) = Inr (bi - e, bj' - e, k + 1 + e)"
        "e \<le> bi - alo" "e \<le> bj' - blo"
        "\<forall>t<e. sm_a sm ! (bi - Suc t) = sm_b sm ! (bj' - Suc t)"
        "alo < bi - e \<and> blo < bj' - e \<longrightarrow> sm_a sm ! (bi - e - 1) \<noteq> sm_b sm ! (bj' - e - 1)"
      by blast
    have step: "extend_left sm False alo blo (Suc bi, Suc bj', k) =
                extend_left sm False alo blo (bi, bj', k + 1)"
      using True Suc.prems wf bj by (subst extend_left.simps) (auto simp: py_index_def)
    have m: "\<forall>t<Suc e. sm_a sm ! (Suc bi - Suc t) = sm_b sm ! (bj - Suc t)"
    proof (intro allI impI)
      fix t assume "t < Suc e"
      show "sm_a sm ! (Suc bi - Suc t) = sm_b sm ! (bj - Suc t)"
      proof (cases t)
        case 0
        then show ?thesis using True bj by simp
      next
        case (Suc t')
        with \<open>t < Suc e\<close> e(4) bj show ?thesis by simp
      qed
    qed
    show ?thesis
      unfolding bj step
      using e(1,2,3,5) m True unfolding bj
      by (intro exI[of _ "Suc e"]) auto
  qed
qed

lemma extend_right_char:
  assumes wf: "well_formed sm" and "ahi \<le> length (sm_a sm)" "bhi \<le> length (sm_b sm)"
  shows
    "\<exists>e. extend_right sm False ahi bhi (bi, bj, k) = Inr (bi, bj, k + e) \<and>
        (e = 0 \<or> bi + k + e \<le> ahi \<and> bj + k + e \<le> bhi) \<and>
        (\<forall>t<e. sm_a sm ! (bi + k + t) = sm_b sm ! (bj + k + t)) \<and>
        (bi + k + e < ahi \<and> bj + k + e < bhi \<longrightarrow> sm_a sm ! (bi + k + e) \<noteq> sm_b sm ! (bj + k + e))"
proof (induction "ahi - (bi + k)" arbitrary: k)
  case 0
  then have "extend_right sm False ahi bhi (bi, bj, k) = Inr (bi, bj, k)"
    by (subst extend_right.simps) simp
  then show ?case using 0 by (intro exI[of _ 0]) auto
next
  case (Suc n)
  show ?case
  proof (cases "bi + k < ahi \<and> bj + k < bhi \<and> sm_a sm ! (bi + k) = sm_b sm ! (bj + k)")
    case False
    have "extend_right sm False ahi bhi (bi, bj, k) = Inr (bi, bj, k)"
      using False assms by (subst extend_right.simps) (auto simp: py_index_def)
    then show ?thesis using False by (intro exI[of _ 0]) auto
  next
    case True
    have n: "n = ahi - (bi + (k + 1))" using Suc.hyps(2) by simp
    from Suc.hyps(1)[OF n] obtain e where
      e: "extend_right sm False ahi bhi (bi, bj, k + 1) = Inr (bi, bj, k + 1 + e)"
        "e = 0 \<or> bi + (k + 1) + e \<le> ahi \<and> bj + (k + 1) + e \<le> bhi"
        "\<forall>t<e. sm_a sm ! (bi + (k + 1) + t) = sm_b sm ! (bj + (k + 1) + t)"
        "bi + (k + 1) + e < ahi \<and> bj + (k + 1) + e < bhi \<longrightarrow>
           sm_a sm ! (bi + (k + 1) + e) \<noteq> sm_b sm ! (bj + (k + 1) + e)"
      by blast
    have step: "extend_right sm False ahi bhi (bi, bj, k) =
                extend_right sm False ahi bhi (bi, bj, k + 1)"
      using True assms by (subst extend_right.simps) (auto simp: py_index_def)
    have m: "\<forall>t<Suc e. sm_a sm ! (bi + k + t) = sm_b sm ! (bj + k + t)"
    proof (intro allI impI)
      fix t assume "t < Suc e"
      show "sm_a sm ! (bi + k + t) = sm_b sm ! (bj + k + t)"
      proof (cases t)
        case 0
        then show ?thesis using True by simp
      next
        case (Suc t')
        with \<open>t < Suc e\<close> e(3) show ?thesis by simp
      qed
    qed
    show ?thesis
      using e(1,2,4) m True unfolding step
      by (intro exI[of _ "Suc e"]) auto
  qed
qed

lemma extend_left_junk:
  assumes "well_formed sm" "bj \<le> length (sm_b sm)"
  shows "extend_left sm True alo blo (bi, bj, k) = Inr (bi, bj, k)"
  using assms by (subst extend_left.simps) (auto simp: py_index_def)

lemma extend_right_junk:
  assumes "well_formed sm" "bhi \<le> length (sm_b sm)"
  shows "extend_right sm True ahi bhi (bi, bj, k) = Inr (bi, bj, k)"
  using assms by (subst extend_right.simps) (auto simp: py_index_def)

lemma find_longest_match_char:
  assumes wf: "well_formed sm"
    and win: "alo \<le> ahi" "ahi \<le> length (sm_a sm)" "blo \<le> bhi" "bhi \<le> length (sm_b sm)"
    and mb: "main_best sm alo ahi blo bhi alo (alo, blo, 0) = (bi, bj, k0)"
  shows "\<exists>e1 e2. find_longest_match sm alo ahi blo bhi = Inr (bi - e1, bj - e1, k0 + e1 + e2) \<and>
      e1 \<le> bi - alo \<and> e1 \<le> bj - blo \<and>
      in_window alo ahi blo bhi (bi - e1, bj - e1, k0 + e1 + e2) \<and>
      is_block sm (bi - e1, bj - e1, k0 + e1 + e2) \<and>
      (alo < bi - e1 \<and> blo < bj - e1 \<longrightarrow> sm_a sm ! (bi - e1 - 1) \<noteq> sm_b sm ! (bj - e1 - 1)) \<and>
      (bi + k0 + e2 < ahi \<and> bj + k0 + e2 < bhi \<longrightarrow>
         sm_a sm ! (bi + k0 + e2) \<noteq> sm_b sm ! (bj + k0 + e2))"
proof -
  have w0: "in_window alo ahi blo bhi (bi, bj, k0)"
    using main_best_in_window[of alo alo ahi blo bhi "(alo, blo, 0)" sm] mb
    by (simp add: in_window_def)
  have b0: "is_block sm (bi, bj, k0)"
    using main_best_is_block[OF wf, of alo alo "(alo, blo, 0)" ahi blo bhi] mb
    by (simp add: is_block_def)
  have r1: "flm_outer sm alo ahi blo bhi (Map.empty, (alo, blo, 0)) = Inr (bi, bj, k0)"
    using flm_outer_char[OF wf win(2), of alo alo blo bhi "(alo, blo, 0)"] mb
    by (simp add: row_of_alo)
  have bnd: "bi \<le> length (sm_a sm)" "bj \<le> length (sm_b sm)" "alo \<le> bi" "blo \<le> bj"
    using w0 win by (auto simp: in_window_def)
  from extend_left_char[OF wf bnd(1,2), of alo blo k0] obtain e1 where
    e1: "extend_left sm False alo blo (bi, bj, k0) = Inr (bi - e1, bj - e1, k0 + e1)"
      "e1 \<le> bi - alo" "e1 \<le> bj - blo"
      "\<forall>t<e1. sm_a sm ! (bi - Suc t) = sm_b sm ! (bj - Suc t)"
      "alo < bi - e1 \<and> blo < bj - e1 \<longrightarrow> sm_a sm ! (bi - e1 - 1) \<noteq> sm_b sm ! (bj - e1 - 1)"
    by blast
  have le1: "e1 \<le> bi" "e1 \<le> bj" using e1(2,3) bnd by auto
  have idx: "bi - e1 + (k0 + e1) = bi + k0" "bj - e1 + (k0 + e1) = bj + k0"
    using le1 by auto
  from extend_right_char[OF wf win(2,4), of "bi - e1" "bj - e1" "k0 + e1"] obtain e2 where
    e2: "extend_right sm False ahi bhi (bi - e1, bj - e1, k0 + e1) = Inr (bi - e1, bj - e1, k0 + e1 + e2)"
      "e2 = 0 \<or> bi + k0 + e2 \<le> ahi \<and> bj + k0 + e2 \<le> bhi"
      "\<forall>t<e2. sm_a sm ! (bi + k0 + t) = sm_b sm ! (bj + k0 + t)"
      "bi + k0 + e2 < ahi \<and> bj + k0 + e2 < bhi \<longrightarrow>
         sm_a sm ! (bi + k0 + e2) \<noteq> sm_b sm ! (bj + k0 + e2)"
    unfolding idx by blast
  have bj': "bj - e1 \<le> length (sm_b sm)" using bnd by simp
  have r: "find_longest_match sm alo ahi blo bhi = Inr (bi - e1, bj - e1, k0 + e1 + e2)"
    unfolding find_longest_match_def r1
    by (simp add: bind_def e1(1) e2(1) extend_left_junk[OF wf bj'] extend_right_junk[OF wf win(4)])
  have w: "in_window alo ahi blo bhi (bi - e1, bj - e1, k0 + e1 + e2)"
    using w0 e1(2,3) e2(2) le1 by (auto simp: in_window_def)
  have blk: "is_block sm (bi - e1, bj - e1, k0 + e1 + e2)"
    unfolding is_block_def
  proof (clarify)
    fix t assume t: "t < k0 + e1 + e2"
    consider (l) "t < e1" | (m) "e1 \<le> t" "t < e1 + k0" | (r) "e1 + k0 \<le> t" by linarith
    then show "sm_a sm ! (bi - e1 + t) = sm_b sm ! (bj - e1 + t)"
    proof cases
      case l
      then have "e1 - Suc t < e1" by simp
      with e1(4) have "sm_a sm ! (bi - Suc (e1 - Suc t)) = sm_b sm ! (bj - Suc (e1 - Suc t))"
        by blast
      moreover have "bi - Suc (e1 - Suc t) = bi - e1 + t" "bj - Suc (e1 - Suc t) = bj - e1 + t"
        using l le1 by auto
      ultimately show ?thesis by simp
    next
      case m
      then have "t - e1 < k0" by simp
      with b0 have "sm_a sm ! (bi + (t - e1)) = sm_b sm ! (bj + (t - e1))"
        by (simp add: is_block_def)
      moreover have "bi + (t - e1) = bi - e1 + t" "bj + (t - e1) = bj - e1 + t"
        using m le1 by auto
      ultimately show ?thesis by simp
    next
      case r
      then have "t - (e1 + k0) < e2" using t by simp
      with e2(3) have "sm_a sm ! (bi + k0 + (t - (e1 + k0))) = sm_b sm ! (bj + k0 + (t - (e1 + k0)))"
        by blast
      moreover have "bi + k0 + (t - (e1 + k0)) = bi - e1 + t" "bj + k0 + (t - (e1 + k0)) = bj - e1 + t"
        using r le1 by auto
      ultimately show ?thesis by simp
    qed
  qed
  show ?thesis
    using r e1(2,3,5) w blk e2(4) by blast
qed

lemma find_longest_match_total:
  assumes "well_formed sm" "alo \<le> ahi" "ahi \<le> length (sm_a sm)" "blo \<le> bhi" "bhi \<le> length (sm_b sm)"
  shows "\<exists>i j k. find_longest_match sm alo ahi blo bhi = Inr (i, j, k) \<and>
           in_window alo ahi blo bhi (i, j, k) \<and> is_block sm (i, j, k) \<and>
           snd (snd (main_best sm alo ahi blo bhi alo (alo, blo, 0))) \<le> k"
proof -
  obtain bi bj k0 where mb: "main_best sm alo ahi blo bhi alo (alo, blo, 0) = (bi, bj, k0)"
    by (cases "main_best sm alo ahi blo bhi alo (alo, blo, 0)") auto
  from find_longest_match_char[OF assms mb] show ?thesis
    unfolding mb by fastforce
qed

declare flm_outer.simps [simp del]

lemma gmb_loop_total:
  "well_formed sm \<Longrightarrow> queue_ok sm queue \<Longrightarrow> \<exists>r. gmb_loop sm queue mb = Inr r"
proof (induction sm queue mb rule: gmb_loop.induct)
  case (1 sm mb)
  then show ?case by simp
next
  case (2 sm alo ahi blo bhi queue mb)
  from "2.prems" have win: "alo \<le> ahi" "ahi \<le> length (sm_a sm)" "blo \<le> bhi" "bhi \<le> length (sm_b sm)"
    and q: "queue_ok sm queue"
    by (auto simp: queue_ok_def)
  from find_longest_match_total[OF "2.prems"(1) win] obtain i j k where
    r: "find_longest_match sm alo ahi blo bhi = Inr (i, j, k)" and
    w: "in_window alo ahi blo bhi (i, j, k)"
    by blast
  show ?case
  proof (cases "k = 0")
    case True
    with r "2.IH"(2)[OF r refl refl _ "2.prems"(1) q] show ?thesis by simp
  next
    case False
    let ?q = "(if i + k < ahi \<and> j + k < bhi then [(i + k, ahi, j + k, bhi)] else []) @
              (if alo < i \<and> blo < j then [(alo, i, blo, j)] else []) @ queue"
    have "queue_ok sm ?q"
      using q w win False by (auto simp: queue_ok_def in_window_def)
    with r False "2.IH"(1)[OF r refl refl _ "2.prems"(1)] show ?thesis by simp
  qed
qed

lemma get_matching_blocks_total:
  "well_formed sm \<Longrightarrow> \<exists>r. get_matching_blocks sm = Inr r"
  using gmb_loop_total[of sm "[(0, length (sm_a sm), 0, length (sm_b sm))]" "[]"]
  by (auto simp: get_matching_blocks_def Let_def bind_def queue_ok_def split: prod.splits)

lemma ratio_total:
  "well_formed sm \<Longrightarrow> \<exists>r. ratio sm = Inr r \<and> 0 \<le> r"
  using get_matching_blocks_total[of sm]
  by (auto simp: ratio_def bind_def calculate_ratio_def py_truediv_def)

lemma similarity_total: "\<exists>r. similarity a b = Inr r \<and> 0 \<le> r"
  unfolding similarity_def by (rule ratio_total[OF well_formed_init])

section \<open>Totality of the comparisons\<close>

lemma line_is_covered_total: "\<exists>c. line_is_covered line coverage thr = Inr c"
proof -
  let ?sm = "SequenceMatcher_init (str_lower line) coverage"
  have "\<exists>i j k. find_longest_match ?sm 0 (length (str_lower line)) 0 (length coverage) = Inr (i, j, k)"
    using find_longest_match_total[OF well_formed_init, of 0 "length (str_lower line)" "str_lower line" coverage 0 "length coverage"]
    by (auto simp: sm_init_simps)
  then show ?thesis
    by (auto simp: line_is_covered_def bind_def py_truediv_def)
qed

lemma uncovered_loop_total: "\<exists>u. uncovered_loop ac_lines coverage uncovered = Inr u"
proof (induction ac_lines arbitrary: uncovered)
  case Nil
  then show ?case by simp
next
  case (Cons line ac_lines)
  obtain c where "line_is_covered line coverage (7 / 10) = Inr c"
    using line_is_covered_total by blast
  then show ?case using Cons by (cases c) auto
qed

lemma compute_delta_total: "\<exists>d. compute_delta self = Inr d"
  using uncovered_loop_total[of "extract_criteria_lines (acceptance_criteria (da_story self))"
      "existing_coverage_text (da_existing self)" "[]"]
  by (auto simp: compute_delta_def Let_def bind_def)

lemma check_loop_total: "\<exists>r. check_loop new_sig sigs st = Inr r"
proof (induction sigs arbitrary: st)
  case Nil
  then show ?case by (cases st) simp
next
  case (Cons p sigs)
  obtain i s where p: "p = (i, s)" by (cases p)
  obtain bs bid where st: "st = (bs, bid)" by (cases st)
  obtain r where "similarity new_sig s = Inr r" using similarity_total by blast
  then show ?case using Cons by (auto simp: p st)
qed

lemma check_total: "\<exists>r. check eng tc = Inr r"
proof -
  obtain bs bid where "check_loop (tc_signature (gtc_title tc) (gtc_given tc) (gtc_when tc) (gtc_then tc))
      (existing_sigs eng) (0, 0) = Inr (bs, bid)"
    using check_loop_total by (metis surj_pair)
  then show ?thesis by (simp add: check_def bind_def)
qed

section \<open>The loop of the duplicate check\<close>

text \<open>
  The loop keeps the greatest score seen so far, and the identifier of the first
  existing test case that reached it.
\<close>

lemma fold_max_ge: "(b :: rat) \<le> fold max xs b"
proof (induction xs arbitrary: b)
  case Nil
  then show ?case by simp
next
  case (Cons x xs)
  show ?case using Cons[of "max x b"] by simp
qed

lemma fold_max_in: "fold max xs (b :: rat) = b \<or> fold max xs b \<in> set xs"
proof (induction xs arbitrary: b)
  case Nil
  then show ?case by simp
next
  case (Cons x xs)
  show ?case using Cons[of "max x b"] by (auto simp: max_def split: if_splits)
qed

lemma find_attained:
  assumes "map (\<lambda>(i, s). similarity new_sig s) sigs = map Inr scores" "m \<in> set scores"
  shows "\<exists>i s. find (\<lambda>(i, s). similarity new_sig s = Inr m) sigs = Some (i, s)"
proof -
  have "Inr m \<in> set (map (\<lambda>(i, s). similarity new_sig s) sigs)"
    using assms by simp
  then have "\<exists>p\<in>set sigs. (\<lambda>(i, s). similarity new_sig s = Inr m) p"
    by force
  then obtain p where "find (\<lambda>(i, s). similarity new_sig s = Inr m) sigs = Some p"
    by (metis find_None_iff2 not_Some_eq)
  then show ?thesis by (cases p) auto
qed

lemma check_loop_char:
  assumes "map (\<lambda>(i, s). similarity new_sig s) sigs = map Inr scores"
  shows "check_loop new_sig sigs (bs, bid) =
     Inr (fold max scores bs,
          if bs < fold max scores bs
          then (case find (\<lambda>(i, s). similarity new_sig s = Inr (fold max scores bs)) sigs of
                  Some (i, s) \<Rightarrow> i | None \<Rightarrow> bid)
          else bid)"
  using assms
proof (induction sigs arbitrary: scores bs bid)
  case Nil
  then show ?case by simp
next
  case (Cons p sigs)
  obtain i s where p: "p = (i, s)" by (cases p)
  from Cons.prems obtain r rest where sc: "scores = r # rest" and
    r: "similarity new_sig s = Inr r" and
    rest: "map (\<lambda>(i, s). similarity new_sig s) sigs = map Inr rest"
    by (cases scores) (auto simp: p)
  note IH = Cons.IH[OF rest]
  show ?case
  proof (cases "bs < r")
    case True
    then have M: "fold max scores bs = fold max rest r"
      unfolding sc by (simp add: max.absorb1 less_imp_le)
    have ge: "r \<le> fold max rest r" by (rule fold_max_ge)
    have att: "\<exists>i s. find (\<lambda>(i, s). similarity new_sig s = Inr (fold max rest r)) sigs = Some (i, s)"
      if "r < fold max rest r"
      using fold_max_in[of rest r] that find_attained[OF rest] by auto
    have step: "check_loop new_sig (p # sigs) (bs, bid) = check_loop new_sig sigs (r, i)"
      using True r by (simp add: p)
    show ?thesis
      unfolding step IH M using True ge r att
      by (auto simp: p)
  next
    case False
    then have M: "fold max scores bs = fold max rest bs"
      unfolding sc by (simp add: max.absorb2)
    have step: "check_loop new_sig (p # sigs) (bs, bid) = check_loop new_sig sigs (bs, bid)"
      using False r by (simp add: p)
    show ?thesis
      unfolding step IH M using False r
      by (auto simp: p)
  qed
qed

lemma find_map_comp: "find P (map f xs) = map_option f (find (\<lambda>x. P (f x)) xs)"
  by (induction xs) auto

section \<open>Filing into a folder\<close>

lemma file_into_ok:
  assumes "\<And>tr s t. add_test_to_suite w tr s t = Inr ()"
  shows "file_into w suite_id test_case_id tr = (Inr (), tr @ truthy_filing suite_id test_case_id)"
  using assms
  by (auto simp: file_into_def truthy_filing_def io_return_def io_call_def split: option.splits)

section \<open>A sequence compared with itself\<close>

text \<open>
  When \<open>a = b\<close> the best match of the main loop always lies on the diagonal: a run
  ending at \<open>(i, j)\<close> is no longer than the runs ending at \<open>(i, i)\<close> and at \<open>(j, j)\<close>,
  which the loop has seen before. The two extension loops then stretch it over the
  whole sequence, popular elements included.
\<close>

lemma hit_self:
  assumes wf: "well_formed sm" and same: "sm_b sm = sm_a sm"
    and h: "hit sm 0 bhi i j" and i: "i < bhi" "i < length (sm_a sm)"
  shows "hit sm 0 bhi i i \<and> hit sm 0 bhi j j"
proof -
  from h have j: "j < bhi" "j \<in> set (b2j_get (sm_b2j sm) (sm_a sm ! i))"
    by (auto simp: hit_def)
  from wf j(2) have pos: "b2j_get (sm_b2j sm) (sm_a sm ! i) = positions (sm_a sm) (sm_a sm ! i)"
    by (auto simp: well_formed_def same dest!: spec[of _ "sm_a sm ! i"])
  from j(2) have eq: "sm_a sm ! j = sm_a sm ! i" "j < length (sm_a sm)"
    unfolding pos by (auto simp: positions_def)
  have "i \<in> set (positions (sm_a sm) (sm_a sm ! i))"
    using i by (auto simp: positions_def)
  moreover have "j \<in> set (positions (sm_a sm) (sm_a sm ! j))"
    using eq by (auto simp: positions_def)
  ultimately show ?thesis
    using i j(1) pos eq by (auto simp: hit_def)
qed

lemma run_len_diag:
  assumes wf: "well_formed sm" and same: "sm_b sm = sm_a sm"
  shows "i < bhi \<Longrightarrow> i < length (sm_a sm) \<Longrightarrow>
         run_len sm 0 0 bhi i j \<le> run_len sm 0 0 bhi i i \<and>
         run_len sm 0 0 bhi i j \<le> run_len sm 0 0 bhi j j"
proof (induction i arbitrary: j)
  case 0
  show ?case
  proof (cases "hit sm 0 bhi 0 j")
    case False
    then show ?thesis by (subst run_len.simps, subst (3) run_len.simps) simp
  next
    case True
    from hit_self[OF wf same True 0] have hh: "hit sm 0 bhi 0 0" "hit sm 0 bhi j j" by auto
    have "run_len sm 0 0 bhi 0 j = 1" using True by (subst run_len.simps) simp
    moreover have "1 \<le> run_len sm 0 0 bhi 0 0" "1 \<le> run_len sm 0 0 bhi j j"
      using hh run_len_pos_iff[of sm 0 0 bhi] by (simp_all add: Suc_le_eq)
    ultimately show ?thesis by simp
  qed
next
  case (Suc i)
  show ?case
  proof (cases "hit sm 0 bhi (Suc i) j")
    case False
    then show ?thesis by (subst run_len.simps, subst (3) run_len.simps) simp
  next
    case True
    from hit_self[OF wf same True Suc.prems] have hh: "hit sm 0 bhi (Suc i) (Suc i)" "hit sm 0 bhi j j"
      by auto
    have ii: "run_len sm 0 0 bhi (Suc i) (Suc i) = run_len sm 0 0 bhi i i + 1"
      using hh(1) by (subst run_len.simps) simp
    show ?thesis
    proof (cases j)
      case 0
      have "run_len sm 0 0 bhi (Suc i) j = 1" using True 0 by (subst run_len.simps) simp
      moreover have "1 \<le> run_len sm 0 0 bhi j j"
        using hh run_len_pos_iff[of sm 0 0 bhi] by (simp_all add: Suc_le_eq)
      ultimately show ?thesis using ii by simp
    next
      case (Suc j')
      have ij: "run_len sm 0 0 bhi (Suc i) j = run_len sm 0 0 bhi i j' + 1"
        using True Suc by (subst run_len.simps) simp
      have jj: "run_len sm 0 0 bhi j j = run_len sm 0 0 bhi j' j' + 1"
        using hh(2) Suc by (subst run_len.simps) simp
      from Suc.IH[of j'] Suc.prems show ?thesis unfolding ii ij jj by simp
    qed
  qed
qed

lemma upd_keep: "run_len sm alo blo bhi i j \<le> snd (snd b) \<Longrightarrow> upd sm alo blo bhi i j b = b"
  using upd_cases[of sm alo blo bhi i j b] by auto

lemma upd_diag: "on_diag b \<Longrightarrow> on_diag (upd sm alo blo bhi i i b)"
  using upd_cases[of sm alo blo bhi i i b] by (auto simp: on_diag_def)

lemma diag_row:
  assumes wf: "well_formed sm" and same: "sm_b sm = sm_a sm"
    and i: "i < bhi" "i < length (sm_a sm)"
  shows "sorted js \<Longrightarrow> on_diag b \<Longrightarrow>
     \<forall>i'<i. run_len sm 0 0 bhi i' i' \<le> snd (snd b) \<Longrightarrow>
     \<forall>j\<in>set js. i < j \<longrightarrow> run_len sm 0 0 bhi i i \<le> snd (snd b) \<or> i \<in> set js \<Longrightarrow>
     on_diag (fold (upd sm 0 0 bhi i) js b)"
proof (induction js arbitrary: b)
  case Nil
  then show ?case by simp
next
  case (Cons j js)
  from Cons.prems(1) have srt: "sorted js" and ge: "\<forall>j'\<in>set js. j \<le> j'" by auto
  note d = run_len_diag[OF wf same i, of j]
  consider (lt) "j < i" | (eq) "j = i" | (gt) "i < j" by linarith
  then show ?case
  proof cases
    case lt
    then have "run_len sm 0 0 bhi i j \<le> snd (snd b)"
      using d Cons.prems(3) by (meson order_trans)
    then have u: "upd sm 0 0 bhi i j b = b" by (rule upd_keep)
    have "\<forall>j'\<in>set js. i < j' \<longrightarrow> run_len sm 0 0 bhi i i \<le> snd (snd b) \<or> i \<in> set js"
      using Cons.prems(4) lt by auto
    from Cons.IH[OF srt Cons.prems(2,3) this] show ?thesis by (simp add: u)
  next
    case eq
    let ?b = "upd sm 0 0 bhi i i b"
    have 1: "on_diag ?b" using Cons.prems(2) by (rule upd_diag)
    have 2: "\<forall>i'<i. run_len sm 0 0 bhi i' i' \<le> snd (snd ?b)"
      using Cons.prems(3) upd_mono[of b sm 0 0 bhi i i] by (meson order_trans)
    have 3: "\<forall>j'\<in>set js. i < j' \<longrightarrow> run_len sm 0 0 bhi i i \<le> snd (snd ?b) \<or> i \<in> set js"
      using upd_ge[of sm 0 0 bhi i i b] by simp
    from Cons.IH[OF srt 1 2 3] show ?thesis by (simp add: eq)
  next
    case gt
    then have "i \<notin> set (j # js)" using ge by auto
    then have k: "run_len sm 0 0 bhi i i \<le> snd (snd b)"
      using Cons.prems(4) gt by auto
    then have "run_len sm 0 0 bhi i j \<le> snd (snd b)"
      using d by (meson order_trans)
    then have u: "upd sm 0 0 bhi i j b = b" by (rule upd_keep)
    have "\<forall>j'\<in>set js. i < j' \<longrightarrow> run_len sm 0 0 bhi i i \<le> snd (snd b) \<or> i \<in> set js"
      using k by simp
    from Cons.IH[OF srt Cons.prems(2,3) this] show ?thesis by (simp add: u)
  qed
qed

lemma sorted_row_js: "well_formed sm \<Longrightarrow> sorted (row_js sm blo bhi i)"
  unfolding row_js_def by (intro sorted_wrt_filter well_formed_sorted)

lemma diag_main:
  assumes wf: "well_formed sm" and same: "sm_b sm = sm_a sm" and n: "n \<le> length (sm_a sm)"
  shows "on_diag b \<Longrightarrow> \<forall>i'<i0. run_len sm 0 0 n i' i' \<le> snd (snd b) \<Longrightarrow>
         on_diag (main_best sm 0 n 0 n i0 b)"
proof (induction "n - i0" arbitrary: i0 b)
  case 0
  then show ?case by (simp add: main_best_def)
next
  case (Suc m)
  then have lt: "i0 < n" by simp
  then have len: "i0 < length (sm_a sm)" using n by simp
  let ?b = "fold (upd sm 0 0 n i0) (row_js sm 0 n i0) b"
  have upt: "[i0..<n] = i0 # [Suc i0..<n]" using lt by (simp add: upt_rec)
  have step: "main_best sm 0 n 0 n i0 b = main_best sm 0 n 0 n (Suc i0) ?b"
    by (simp add: main_best_def upt)
  have c: "\<forall>j\<in>set (row_js sm 0 n i0). i0 < j \<longrightarrow>
             run_len sm 0 0 n i0 i0 \<le> snd (snd b) \<or> i0 \<in> set (row_js sm 0 n i0)"
  proof (intro ballI impI)
    fix j assume "j \<in> set (row_js sm 0 n i0)"
    then have "hit sm 0 n i0 j" by (simp add: row_js_hit)
    from hit_self[OF wf same this lt len] have "i0 \<in> set (row_js sm 0 n i0)"
      by (simp add: row_js_hit)
    then show "run_len sm 0 0 n i0 i0 \<le> snd (snd b) \<or> i0 \<in> set (row_js sm 0 n i0)" ..
  qed
  have 1: "on_diag ?b"
    by (rule diag_row[OF wf same lt len sorted_row_js[OF wf] Suc.prems(1,2) c])
  have 2: "\<forall>i'<Suc i0. run_len sm 0 0 n i' i' \<le> snd (snd ?b)"
  proof (intro allI impI)
    fix i' assume "i' < Suc i0"
    show "run_len sm 0 0 n i' i' \<le> snd (snd ?b)"
    proof (cases "i' = i0")
      case True
      show ?thesis
      proof (cases "hit sm 0 n i0 i0")
        case h: True
        then show ?thesis unfolding True by (intro fold_upd_ge) (simp add: row_js_hit)
      next
        case False
        then have "run_len sm 0 0 n i0 i0 = 0" using run_len_pos_iff[of sm 0 0 n i0 i0] by simp
        then show ?thesis unfolding True by simp
      qed
    next
      case False
      with \<open>i' < Suc i0\<close> have "i' < i0" by simp
      with Suc.prems(2) fold_upd_mono[of b sm 0 0 n i0 "row_js sm 0 n i0"] show ?thesis
        by (meson order_trans)
    qed
  qed
  have m: "m = n - Suc i0" using Suc.hyps(2) by simp
  from Suc.hyps(1)[OF m 1 2] show ?case unfolding step .
qed

lemma find_longest_match_self:
  assumes "a \<noteq> []"
  shows "find_longest_match (SequenceMatcher_init a a) 0 (length a) 0 (length a) = Inr (0, 0, length a)"
proof -
  let ?sm = "SequenceMatcher_init a a"
  let ?n = "length a"
  have wf: "well_formed ?sm" by (rule well_formed_init)
  have ab: "sm_a ?sm = a" "sm_b ?sm = a" by (simp_all add: sm_init_simps)
  obtain bi bj k0 where mb: "main_best ?sm 0 ?n 0 ?n 0 (0, 0, 0) = (bi, bj, k0)"
    by (cases "main_best ?sm 0 ?n 0 ?n 0 (0, 0, 0)") auto
  have "on_diag (main_best ?sm 0 ?n 0 ?n 0 (0, 0, 0))"
    by (rule diag_main[OF wf]) (simp_all add: ab on_diag_def)
  then have bj: "bj = bi" unfolding mb by (simp add: on_diag_def)
  from find_longest_match_char[OF wf _ _ _ _ mb] obtain e1 e2 where
    r: "find_longest_match ?sm 0 ?n 0 ?n = Inr (bi - e1, bj - e1, k0 + e1 + e2)" and
    w: "in_window 0 ?n 0 ?n (bi - e1, bj - e1, k0 + e1 + e2)" and
    l: "0 < bi - e1 \<and> 0 < bj - e1 \<longrightarrow> sm_a ?sm ! (bi - e1 - 1) \<noteq> sm_b ?sm ! (bj - e1 - 1)" and
    rr: "bi + k0 + e2 < ?n \<and> bj + k0 + e2 < ?n \<longrightarrow> sm_a ?sm ! (bi + k0 + e2) \<noteq> sm_b ?sm ! (bj + k0 + e2)" and
    le: "e1 \<le> bi - 0"
    unfolding ab by (auto simp: ab)
  from l have z: "bi - e1 = 0" unfolding bj ab by auto
  from rr have ge: "?n \<le> bi + k0 + e2" unfolding bj ab by auto
  from z le have e1: "e1 = bi" by simp
  from w ge assms have "k0 + e1 + e2 = ?n"
    unfolding bj e1 by (auto simp: in_window_def)
  with r z show ?thesis unfolding bj by simp
qed

lemma similarity_self: "a \<noteq> [] \<Longrightarrow> similarity a a = Inr 1"
  using find_longest_match_self[of a]
  by (simp add: similarity_def ratio_def get_matching_blocks_def sm_init_simps bind_def Let_def
      calculate_ratio_def py_truediv_def)

lemma find_longest_match_empty:
  "find_longest_match (SequenceMatcher_init [] b) 0 0 0 (length b) = Inr (0, 0, 0)"
  unfolding find_longest_match_def
  by (simp add: flm_outer.simps extend_left.simps extend_right.simps bind_def)

lemma similarity_empty: "similarity [] b = Inr (if b = [] then 1 else 0)"
  using find_longest_match_empty[of b]
  by (simp add: similarity_def ratio_def get_matching_blocks_def sm_init_simps bind_def Let_def
      calculate_ratio_def py_truediv_def)

lemma similarity_empty_right: "a \<noteq> [] \<Longrightarrow> similarity a [] = Inr 0"
proof -
  assume ne: "a \<noteq> []"
  let ?sm = "SequenceMatcher_init a []"
  from find_longest_match_total[OF well_formed_init, of 0 "length a" a "[]" 0 0] obtain i j k where
    r: "find_longest_match ?sm 0 (length a) 0 0 = Inr (i, j, k)" and
    w: "in_window 0 (length a) 0 0 (i, j, k)"
    by (auto simp: sm_init_simps)
  from w have "k = 0" by (auto simp: in_window_def)
  with r ne show ?thesis
    by (simp add: similarity_def ratio_def get_matching_blocks_def sm_init_simps bind_def Let_def
        calculate_ratio_def py_truediv_def)
qed

section \<open>The longest common substring\<close>

text \<open>
  The specification's \<open>L\<close>: the greatest length of a contiguous block that occurs in
  both sequences. The block that \<^const>\<open>find_longest_match\<close> returns on the whole of \<open>a\<close>
  and \<open>b\<close> is never longer, and it has this length when no element of \<open>b\<close> is popular.
\<close>

lemma common_finite: "finite {length w |w. sublist w a \<and> sublist w b}"
proof (rule finite_subset)
  show "{length w |w. sublist w a \<and> sublist w b} \<subseteq> {..length a}"
    by (auto dest: sublist_length_le)
qed simp

lemma lcs_ge: "sublist w a \<Longrightarrow> sublist w b \<Longrightarrow> length w \<le> longest_common_substring a b"
  unfolding longest_common_substring_def
  by (rule Max_ge[OF common_finite]) auto

lemma lcs_le:
  assumes "\<And>w. sublist w a \<Longrightarrow> sublist w b \<Longrightarrow> length w \<le> k"
  shows "longest_common_substring a b \<le> k"
  unfolding longest_common_substring_def
proof (rule Max.boundedI[OF common_finite])
  show "{length w |w. sublist w a \<and> sublist w b} \<noteq> {}"
    by (auto intro: exI[of _ "[]"])
qed (use assms in auto)

lemma run_len_ge:
  "(\<forall>t<m. hit sm 0 bhi (i - t) (j - t)) \<Longrightarrow> m \<le> Suc i \<Longrightarrow> m \<le> Suc j \<Longrightarrow>
   m \<le> run_len sm 0 0 bhi i j"
proof (induction m arbitrary: i j)
  case 0
  then show ?case by simp
next
  case (Suc m)
  from Suc.prems(1) have h: "hit sm 0 bhi i j" by force
  show ?case
  proof (cases m)
    case 0
    then show ?thesis using h run_len_pos_iff[of sm 0 0 bhi i j] by simp
  next
    case (Suc m')
    with Suc.prems obtain i' j' where ij: "i = Suc i'" "j = Suc j'"
      by (cases i; cases j) auto
    have "\<forall>t<m. hit sm 0 bhi (i' - t) (j' - t)"
    proof (intro allI impI)
      fix t assume "t < m"
      then have "hit sm 0 bhi (i - Suc t) (j - Suc t)" using Suc.prems(1) by simp
      then show "hit sm 0 bhi (i' - t) (j' - t)" by (simp add: ij)
    qed
    from Suc.IH[OF this] Suc.prems(2,3) have "m \<le> run_len sm 0 0 bhi i' j'"
      by (simp add: ij)
    then show ?thesis using h by (subst run_len.simps) (simp add: ij)
  qed
qed

lemma well_formed_short:
  "popular_free b \<Longrightarrow> b2j_get (sm_b2j (SequenceMatcher_init a b)) x = positions b x"
  by (simp add: sm_init_simps chain_b_get_popular_free)

lemma find_longest_match_le_lcs:
  "\<exists>i j k. find_longest_match (SequenceMatcher_init a b) 0 (length a) 0 (length b) = Inr (i, j, k) \<and>
     k \<le> longest_common_substring a b \<and>
     snd (snd (main_best (SequenceMatcher_init a b) 0 (length a) 0 (length b) 0 (0, 0, 0))) \<le> k"
proof -
  let ?sm = "SequenceMatcher_init a b"
  have wf: "well_formed ?sm" by (rule well_formed_init)
  have ab: "sm_a ?sm = a" "sm_b ?sm = b" by (simp_all add: sm_init_simps)
  from find_longest_match_total[OF wf, of 0 "length a" 0 "length b"] obtain i j k where
    r: "find_longest_match ?sm 0 (length a) 0 (length b) = Inr (i, j, k)" and
    w: "in_window 0 (length a) 0 (length b) (i, j, k)" and
    blk: "is_block ?sm (i, j, k)" and
    ge: "snd (snd (main_best ?sm 0 (length a) 0 (length b) 0 (0, 0, 0))) \<le> k"
    by (auto simp: ab)
  have up: "k \<le> longest_common_substring a b"
  proof (cases "k = 0")
    case True
    then show ?thesis by simp
  next
    case False
    with w have b: "i + k \<le> length a" "j + k \<le> length b" by (auto simp: in_window_def)
    have eq: "take k (drop i a) = take k (drop j b)"
      using blk b by (auto simp: is_block_def ab list_eq_iff_nth_eq)
    have "sublist (take k (drop i a)) a"
      by (meson sublist_drop sublist_take sublist_order.order_trans)
    moreover have "sublist (take k (drop j b)) b"
      by (meson sublist_drop sublist_take sublist_order.order_trans)
    ultimately have "length (take k (drop i a)) \<le> longest_common_substring a b"
      unfolding eq[symmetric] using lcs_ge eq by metis
    then show ?thesis using b by simp
  qed
  from r up ge show ?thesis by blast
qed

lemma find_longest_match_lcs:
  assumes short: "popular_free b"
  shows "\<exists>i j. find_longest_match (SequenceMatcher_init a b) 0 (length a) 0 (length b) =
           Inr (i, j, longest_common_substring a b)"
proof -
  let ?sm = "SequenceMatcher_init a b"
  have ab: "sm_a ?sm = a" "sm_b ?sm = b" by (simp_all add: sm_init_simps)
  from find_longest_match_le_lcs[of a b] obtain i j k where
    r: "find_longest_match ?sm 0 (length a) 0 (length b) = Inr (i, j, k)" and
    up: "k \<le> longest_common_substring a b" and
    ge: "snd (snd (main_best ?sm 0 (length a) 0 (length b) 0 (0, 0, 0))) \<le> k"
    by blast
  have low: "longest_common_substring a b \<le> k"
  proof (rule lcs_le)
    fix w assume wa: "sublist w a" and wb: "sublist w b"
    show "length w \<le> k"
    proof (cases "w = []")
      case True
      then show ?thesis by simp
    next
      case False
      from wa obtain p s where a: "a = p @ w @ s" by (auto simp: sublist_def)
      from wb obtain p' s' where b: "b = p' @ w @ s'" by (auto simp: sublist_def)
      let ?m = "length w"
      let ?i = "length p + ?m - 1"
      let ?j = "length p' + ?m - 1"
      have m: "0 < ?m" using False by simp
      have hits: "\<forall>t<?m. hit ?sm 0 (length b) (?i - t) (?j - t)"
      proof (intro allI impI)
        fix t assume t: "t < ?m"
        define u where "u = ?m - 1 - t"
        have u: "u < ?m" "?i - t = length p + u" "?j - t = length p' + u"
          using t by (auto simp: u_def)
        have ai: "a ! (?i - t) = w ! u"
          unfolding u(2) a nth_append_length_plus using u(1) by (simp add: nth_append)
        have bj: "b ! (?j - t) = w ! u"
          unfolding u(3) b nth_append_length_plus using u(1) by (simp add: nth_append)
        have jl: "?j - t < length b" using t unfolding b by simp
        show "hit ?sm 0 (length b) (?i - t) (?j - t)"
          using ai bj jl by (simp add: hit_def well_formed_short[OF short] ab positions_def)
      qed
      have "?m \<le> run_len ?sm 0 0 (length b) ?i ?j"
        by (rule run_len_ge[OF hits]) (use m in auto)
      moreover have "?i < length a" unfolding a using m by (cases w) auto
      ultimately have "?m \<le> snd (snd (main_best ?sm 0 (length a) 0 (length b) 0 (0, 0, 0)))"
        using main_best_ge[of 0 ?i "length a" ?sm 0 0 "length b" ?j "(0, 0, 0)"]
        by (meson le0 order_trans)
      then show ?thesis using ge by simp
    qed
  qed
  from r up low show ?thesis by auto
qed

section \<open>The coverage check and the delta\<close>

lemma lcs_Nil [simp]: "longest_common_substring a [] = 0"
  by (rule antisym[OF lcs_le]) auto

lemma length_str_lower [simp]: "length (str_lower s) = length s"
  by (simp add: str_lower_def)

lemma line_is_covered_lcs:
  assumes "popular_free corpus"
  shows "line_is_covered line corpus (7 / 10) = Inr (judged_covered line corpus)"
proof (cases "sublist (str_lower line) corpus")
  case True
  then show ?thesis by (simp add: line_is_covered_def judged_covered_def)
next
  case False
  then have ne: "line \<noteq> []" by (auto simp: str_lower_def)
  from find_longest_match_lcs[OF assms, of "str_lower line"] obtain i j where
    r: "find_longest_match (SequenceMatcher_init (str_lower line) corpus) 0 (length (str_lower line))
          0 (length corpus) = Inr (i, j, longest_common_substring (str_lower line) corpus)"
    by blast
  show ?thesis
  proof (cases "corpus = []")
    case True
    then show ?thesis using False ne r
      by (simp add: line_is_covered_def judged_covered_def bind_def)
  next
    case c: False
    then show ?thesis using False r
      by (simp add: line_is_covered_def judged_covered_def bind_def py_truediv_def mult.commute)
  qed
qed

lemma uncovered_loop_char:
  "uncovered_loop ac_lines coverage uncovered =
     Inr (uncovered @ filter (\<lambda>line. line_is_covered line coverage (7 / 10) = Inr False) ac_lines)"
proof (induction ac_lines arbitrary: uncovered)
  case Nil
  then show ?case by simp
next
  case (Cons line ac_lines)
  obtain c where "line_is_covered line coverage (7 / 10) = Inr c"
    using line_is_covered_total by blast
  then show ?case using Cons by (cases c) auto
qed

lemma compute_delta_char:
  assumes "da_existing self \<noteq> []"
  shows "compute_delta self =
     Inr (str_join newline (map (\<lambda>line. ''- '' @ line)
            (filter (\<lambda>line. line_is_covered line (existing_coverage_text (da_existing self)) (7 / 10)
                              = Inr False)
               (extract_criteria_lines (acceptance_criteria (da_story self))))))"
proof -
  have pre: "(@) ''- '' = (\<lambda>line. CHR ''-'' # CHR '' '' # line)"
    by (intro ext) simp
  show ?thesis
    using assms by (simp add: compute_delta_def Let_def bind_def uncovered_loop_char pre)
qed

text \<open>
  For every corpus the check compares \<open>2 \<times> k\<close> with the threshold, \<open>k\<close> being the size of
  the block that \<^const>\<open>find_longest_match\<close> returns; \<open>k\<close> is at most the length of the
  longest common substring, and equal to it when no character of the corpus is popular.
\<close>

lemma line_is_covered_char:
  "\<exists>i j k. find_longest_match (SequenceMatcher_init (str_lower line) corpus)
              0 (length (str_lower line)) 0 (length corpus) = Inr (i, j, k) \<and>
     k \<le> longest_common_substring (str_lower line) corpus \<and>
     (popular_free corpus \<longrightarrow> k = longest_common_substring (str_lower line) corpus) \<and>
     line_is_covered line corpus thr =
       Inr (sublist (str_lower line) corpus \<or>
            thr \<le> (of_nat (2 * k) :: rat) / of_nat (length line + length corpus))"
proof -
  from find_longest_match_le_lcs[of "str_lower line" corpus] obtain i j k where
    r: "find_longest_match (SequenceMatcher_init (str_lower line) corpus)
          0 (length (str_lower line)) 0 (length corpus) = Inr (i, j, k)" and
    up: "k \<le> longest_common_substring (str_lower line) corpus"
    by blast
  have eq: "k = longest_common_substring (str_lower line) corpus" if "popular_free corpus"
    using find_longest_match_lcs[OF that, of "str_lower line"] r by auto
  have cov: "line_is_covered line corpus thr =
       Inr (sublist (str_lower line) corpus \<or>
            thr \<le> (of_nat (2 * k) :: rat) / of_nat (length line + length corpus))"
  proof (cases "corpus = []")
    case True
    with up have "k = 0" by simp
    with True r show ?thesis
      by (simp add: line_is_covered_def bind_def)
  next
    case False
    with r show ?thesis
      by (simp add: line_is_covered_def bind_def py_truediv_def mult.commute)
  qed
  from r up eq cov show ?thesis by blast
qed

lemma line_is_covered_sound:
  assumes "line_is_covered line corpus (7 / 10) = Inr True"
  shows "judged_covered line corpus"
proof -
  from line_is_covered_char[of line corpus "7 / 10"] obtain i j k where
    up: "k \<le> longest_common_substring (str_lower line) corpus" and
    cov: "line_is_covered line corpus (7 / 10) =
       Inr (sublist (str_lower line) corpus \<or>
            7 / 10 \<le> (of_nat (2 * k) :: rat) / of_nat (length line + length corpus))"
    by blast
  let ?L = "longest_common_substring (str_lower line) corpus"
  let ?n = "length line + length corpus"
  from up have "(of_nat (2 * k) :: rat) \<le> of_nat (2 * ?L)"
    by (intro of_nat_mono) simp
  then have "(of_nat (2 * k) :: rat) / of_nat ?n \<le> of_nat (2 * ?L) / of_nat ?n"
    by (rule divide_right_mono) simp
  with assms cov show ?thesis
    unfolding judged_covered_def by auto
qed

lemma compute_delta_no_existing: "compute_delta \<lparr>da_story = story, da_existing = []\<rparr> = Inr []"
  by (simp add: compute_delta_def Let_def)

lemma extract_criteria_lines_Nil: "extract_criteria_lines [] = []"
  by (simp add: extract_criteria_lines_def str_strip_def str_lstrip_def)

lemma extract_criteria_lines_nonempty: "line \<in> set (extract_criteria_lines ac_text) \<Longrightarrow> line \<noteq> []"
  by (auto simp: extract_criteria_lines_def)

lemma line_is_covered_empty_corpus: "line \<noteq> [] \<Longrightarrow> line_is_covered line [] (7 / 10) = Inr False"
  using line_is_covered_char[of line "[]" "7 / 10"]
  by (auto simp: str_lower_def)

lemma delta_of_empty_corpus:
  assumes "da_existing self \<noteq> []" "existing_coverage_text (da_existing self) = []"
  shows "compute_delta self =
     Inr (str_join newline (map (\<lambda>line. ''- '' @ line)
            (extract_criteria_lines (acceptance_criteria (da_story self)))))"
proof -
  have "filter (\<lambda>line. line_is_covered line [] (7 / 10) = Inr False)
          (extract_criteria_lines (acceptance_criteria (da_story self))) =
        extract_criteria_lines (acceptance_criteria (da_story self))"
    by (rule filter_True) (simp add: extract_criteria_lines_nonempty line_is_covered_empty_corpus)
  then show ?thesis
    using compute_delta_char[OF assms(1)] assms(2) by simp
qed

text \<open>
  What \<^const>\<open>check\<close> returns, for every threshold: with \<open>m\<close> the greatest of the scores and
  \<open>0\<close>, the identifier is that of the first existing test case whose score is \<open>m\<close> when
  \<open>m\<close> is positive, and \<open>0\<close> when no score is positive.
\<close>

lemma check_characterised:
  "\<exists>scores.
     map (\<lambda>e. similarity (tc_signature (gtc_title tc) (gtc_given tc) (gtc_when tc) (gtc_then tc))
                 (existing_signature e)) existing = map Inr scores \<and>
     check (DedupEngine_init settings existing thr) tc =
       (if threshold (DedupEngine_init settings existing thr) \<le> Max (set (0 # scores))
        then Inr \<lparr>is_duplicate = True,
                  matched_id =
                    (if 0 < Max (set (0 # scores))
                     then (case find (\<lambda>e. similarity
                                  (tc_signature (gtc_title tc) (gtc_given tc) (gtc_when tc) (gtc_then tc))
                                  (existing_signature e) = Inr (Max (set (0 # scores)))) existing of
                             Some e \<Rightarrow> etc_id e | None \<Rightarrow> 0)
                     else 0),
                  score = Max (set (0 # scores))\<rparr>
        else Inr \<lparr>is_duplicate = False, matched_id = 0, score = Max (set (0 # scores))\<rparr>)"
proof -
  let ?eng = "DedupEngine_init settings existing thr"
  let ?sig = "tc_signature (gtc_title tc) (gtc_given tc) (gtc_when tc) (gtc_then tc)"
  have "\<exists>scores. map (\<lambda>e. similarity ?sig (existing_signature e)) existing = map Inr scores"
  proof (induction existing)
    case Nil
    then show ?case by simp
  next
    case (Cons e es)
    then obtain scores where "map (\<lambda>e. similarity ?sig (existing_signature e)) es = map Inr scores"
      by blast
    moreover obtain r where "similarity ?sig (existing_signature e) = Inr r"
      using similarity_total by blast
    ultimately show ?case by (intro exI[of _ "r # scores"]) simp
  qed
  then obtain scores where sc: "map (\<lambda>e. similarity ?sig (existing_signature e)) existing = map Inr scores"
    by blast
  let ?m = "Max (set (0 # scores))"
  have m: "?m = fold max scores 0" by (rule Max.set_eq_fold)
  have sigs: "existing_sigs ?eng = map (\<lambda>e. (etc_id e, existing_signature e)) existing"
    by (simp add: DedupEngine_init_def)
  have sc': "map (\<lambda>(i, s). similarity ?sig s) (existing_sigs ?eng) = map Inr scores"
    using sc by (simp add: sigs comp_def)
  have fnd: "find (\<lambda>(i, s). similarity ?sig s = Inr ?m) (existing_sigs ?eng) =
             map_option (\<lambda>e. (etc_id e, existing_signature e))
               (find (\<lambda>e. similarity ?sig (existing_signature e) = Inr ?m) existing)"
    unfolding sigs by (simp add: find_map_comp)
  have loop: "check_loop ?sig (existing_sigs ?eng) (0, 0) =
     Inr (?m, if 0 < ?m
              then (case find (\<lambda>(i, s). similarity ?sig s = Inr ?m) (existing_sigs ?eng) of
                      Some (i, s) \<Rightarrow> i | None \<Rightarrow> 0)
              else 0)"
    using check_loop_char[OF sc', of 0 0] unfolding m .
  have idx: "(case find (\<lambda>(i, s). similarity ?sig s = Inr ?m) (existing_sigs ?eng) of
                Some (i, s) \<Rightarrow> i | None \<Rightarrow> 0) =
             (case find (\<lambda>e. similarity ?sig (existing_signature e) = Inr ?m) existing of
                Some e \<Rightarrow> etc_id e | None \<Rightarrow> 0)"
    unfolding fnd by (simp split: option.splits)
  have chk: "check ?eng tc =
     (if threshold ?eng \<le> ?m
      then Inr \<lparr>is_duplicate = True,
                matched_id = (if 0 < ?m
                   then (case find (\<lambda>e. similarity ?sig (existing_signature e) = Inr ?m) existing of
                           Some e \<Rightarrow> etc_id e | None \<Rightarrow> 0)
                   else 0),
                score = ?m\<rparr>
      else Inr \<lparr>is_duplicate = False, matched_id = 0, score = ?m\<rparr>)"
    unfolding idx[symmetric] by (simp add: check_def Let_def bind_def loop)
  from sc chk show ?thesis by blast
qed

text \<open>
  A console that raises aborts the run: when \<^verbatim>\<open>_show_story\<close> raises, \<^verbatim>\<open>run\<close> raises the
  same error right after the story is fetched.
\<close>

lemma run_show_story_raises:
  assumes "ado_client_init w [] = Inr ()"
    and "get_user_story w [NewADOClient] sid = Inr story"
    and "console_print w [NewADOClient, GetUserStory sid] (ShowStory story) = Inl e"
  shows "run w settings sid dry_run [] = (Inl e, [NewADOClient, GetUserStory sid, ShowStory story])"
  using assms
  by (simp add: run_def io_bind_def io_call_def console_def show_story_def Let_def)

lemma run_markup_error:
  "run ((world_fixed story_login [tc_login] [gen_login])\<lparr>console_print := \<lambda>tr c. Inl MarkupError\<rparr>)
     (Settings_load None) 1 True [] =
     (Inl MarkupError, [NewADOClient, GetUserStory 1, ShowStory story_login])"
  by (rule run_show_story_raises) (simp_all add: world_fixed_def)

section \<open>The concrete inputs, evaluated\<close>

lemma login_corpus_length: "length (existing_coverage_text [tc_login]) = 46"
  by code_simp

lemma login_line_value:
  "line_is_covered ''User can log in'' (existing_coverage_text [tc_login]) (7 / 10) = Inr False"
  by code_simp

lemma login_delta_value:
  "compute_delta \<lparr>da_story = story_login, da_existing = [tc_login]\<rparr> =
     Inr (''- User can log in'' @ newline @ ''- User can reset password'')"
  by code_simp

lemma blank_delta_value:
  "compute_delta \<lparr>da_story = story_blank, da_existing = [tc_login]\<rparr> = Inr []"
  by code_simp

lemma covered_delta_value:
  "compute_delta \<lparr>da_story = story_covered, da_existing = [tc_login]\<rparr> = Inr []"
  by code_simp

lemma covered_line_value:
  "line_is_covered ''User logs in'' (existing_coverage_text [tc_login]) (7 / 10) = Inr True"
  by code_simp

lemma blank_check_value:
  "check (DedupEngine_init (Settings_load None) [tc_blank] None) gen_blank =
     Inr \<lparr>is_duplicate = True, matched_id = 5, score = 1\<rparr>"
  by code_simp

lemma login_check_value:
  "check (DedupEngine_init (Settings_load None) [tc_login] None) gen_login =
     Inr \<lparr>is_duplicate = True, matched_id = 7, score = 22 / 23\<rparr>"
  by code_simp

section \<open>The coverage delta\<close>

text \<open>
  Claim C7. \<^verbatim>\<open>compute_delta\<close> returns the empty string when no line of the acceptance
  criteria is left non-empty by the two strips, and it returns the empty string for
  any acceptance criteria when there is no existing test case.
\<close>

theorem compute_delta_empty:
  assumes "(\<forall>raw \<in> set (str_split (CHR 0x0A) (str_replace_crlf (acceptance_criteria story))).
              str_lstrip ''-*0123456789.) '' (str_strip raw) = []) \<or> existing = []"
  shows "compute_delta \<lparr>da_story = story, da_existing = existing\<rparr> = Inr []"
proof -
  have "extract_criteria_lines (acceptance_criteria story) = [] \<or> existing = []"
    using assms by (auto simp: extract_criteria_lines_def filter_empty_conv)
  then show ?thesis
    by (auto simp: compute_delta_def Let_def)
qed

theorem compute_delta_empty_witness:
  "map (\<lambda>raw. str_lstrip ''-*0123456789.) '' (str_strip raw))
     (str_split (CHR 0x0A) (str_replace_crlf (acceptance_criteria story_blank))) = [[], [], []] \<and>
   compute_delta \<lparr>da_story = story_blank, da_existing = [tc_login]\<rparr> = Inr []"
  using compute_delta_empty[of story_blank "[tc_login]"]
  by (simp add: story_blank_def str_strip_def str_lstrip_def isspace_def)

text \<open>
  Claim C3, as amended. For the acceptance criteria \<open>- User can log in\<close> and
  \<open>- User can reset password\<close> and the one existing test case \<open>Verify user login\<close>
  with the step \<open>user logs in\<close> / \<open>dashboard shown\<close>, the delta reports both lines
  as uncovered: the login line shares at most five characters in a row with the
  46 characters of the corpus, a ratio of \<open>10 / 61\<close>.
\<close>

theorem login_delta_reports_both_lines:
  "compute_delta \<lparr>da_story = story_login, da_existing = [tc_login]\<rparr> =
     Inr (''- User can log in'' @ newline @ ''- User can reset password'')"
  by (rule login_delta_value)

text \<open>The claim as stated fails: the login line is not judged covered.\<close>

theorem login_line_not_covered_counterexample:
  "extract_criteria_lines (acceptance_criteria story_login) =
     [''User can log in'', ''User can reset password''] \<and>
   line_is_covered ''User can log in'' (existing_coverage_text [tc_login]) (7 / 10) = Inr False \<and>
   find_longest_match
     (SequenceMatcher_init ''user can log in'' (existing_coverage_text [tc_login])) 0 15 0 46 =
     Inr (0, 7, 5)"
  by code_simp

text \<open>
  Claim C2, as amended. For every line and every corpus, the line is found covered
  exactly when its lowercase form is a substring of the corpus or \<open>2 \<times> k\<close> divided by
  the length of the line plus the length of the corpus is at least \<open>0.70\<close>, where \<open>k\<close>
  is the size of the block that \<^verbatim>\<open>find_longest_match\<close> returns; \<open>k\<close> is at most the length
  \<open>L\<close> of the longest common substring, so a line found covered is judged covered in the
  sense of the specification; and \<open>k = L\<close>, so that the two agree, when the corpus has
  fewer than 200 characters or no character occurs in it more than \<open>n div 100 + 1\<close>
  times. When there is an existing test case, the delta is the list of the criteria
  lines found not covered, each prefixed by \<open>- \<close>, joined by newlines.
\<close>

theorem coverage_delta_judged:
  "(\<exists>i j k. find_longest_match (SequenceMatcher_init (str_lower line) corpus)
                0 (length (str_lower line)) 0 (length corpus) = Inr (i, j, k) \<and>
      k \<le> longest_common_substring (str_lower line) corpus \<and>
      (popular_free corpus \<longrightarrow> k = longest_common_substring (str_lower line) corpus) \<and>
      line_is_covered line corpus (7 / 10) =
        Inr (sublist (str_lower line) corpus \<or>
             7 / 10 \<le> (of_nat (2 * k) :: rat) / of_nat (length line + length corpus))) \<and>
   (line_is_covered line corpus (7 / 10) = Inr True \<longrightarrow> judged_covered line corpus) \<and>
   (popular_free corpus \<longrightarrow>
      line_is_covered line corpus (7 / 10) = Inr (judged_covered line corpus)) \<and>
   (existing \<noteq> [] \<longrightarrow>
      compute_delta \<lparr>da_story = story, da_existing = existing\<rparr> =
        Inr (str_join newline (map (\<lambda>line. ''- '' @ line)
               (filter (\<lambda>line. line_is_covered line (existing_coverage_text existing) (7 / 10)
                                 = Inr False)
                  (extract_criteria_lines (acceptance_criteria story))))))"
proof -
  note a = line_is_covered_char[of line corpus "7 / 10"]
  have b: "judged_covered line corpus" if "line_is_covered line corpus (7 / 10) = Inr True"
    using that by (rule line_is_covered_sound)
  have c: "line_is_covered line corpus (7 / 10) = Inr (judged_covered line corpus)"
    if "popular_free corpus"
    using that by (rule line_is_covered_lcs)
  have d: "compute_delta \<lparr>da_story = story, da_existing = existing\<rparr> =
       Inr (str_join newline (map (\<lambda>line. ''- '' @ line)
              (filter (\<lambda>line. line_is_covered line (existing_coverage_text existing) (7 / 10)
                                = Inr False)
                 (extract_criteria_lines (acceptance_criteria story)))))"
    if "existing \<noteq> []"
    using compute_delta_char[of "\<lparr>da_story = story, da_existing = existing\<rparr>"] that by simp
  from a b c d show ?thesis by blast
qed

theorem coverage_delta_judged_witness:
  "[tc_login] \<noteq> [] \<and> popular_free (existing_coverage_text [tc_login]) \<and>
   line_is_covered ''User logs in'' (existing_coverage_text [tc_login]) (7 / 10) = Inr True \<and>
   judged_covered ''User logs in'' (existing_coverage_text [tc_login]) \<and>
   compute_delta \<lparr>da_story = story_login, da_existing = [tc_login]\<rparr> =
     Inr (''- User can log in'' @ newline @ ''- User can reset password'')"
proof -
  have p: "popular_free (existing_coverage_text [tc_login])"
    by (simp add: popular_free_def login_corpus_length)
  from coverage_delta_judged[where line = "''User logs in''"
      and corpus = "existing_coverage_text [tc_login]" and existing = "[tc_login]"
      and story = story_login]
    p covered_line_value login_delta_value
  show ?thesis by simp
qed

text \<open>
  The claim as stated fails for a corpus of 200 characters or more: there the search
  skips every character that occurs more than \<open>n div 100 + 1\<close> times in the corpus when
  it looks for the start of a match. Against the corpus of 198 \<open>x\<close> followed by \<open>yz\<close>,
  the line \<open>yz\<close> followed by 190 \<open>x\<close> shares 190 characters in a row, a ratio of
  \<open>380 / 392\<close>; the search returns the block \<open>yz\<close> of length 2 and the line is
  found not covered.
\<close>

theorem coverage_long_corpus_counterexample:
  "length (existing_coverage_text [tc_long]) = 200 \<and>
   line_is_covered line_long (existing_coverage_text [tc_long]) (7 / 10) = Inr False \<and>
   judged_covered line_long (existing_coverage_text [tc_long])"
proof -
  have cov: "existing_coverage_text [tc_long] = replicate 198 CHR ''x'' @ ''yz''"
    by code_simp
  have low: "str_lower line_long = ''yz'' @ replicate 190 CHR ''x''"
    by code_simp
  have len: "length (existing_coverage_text [tc_long]) = 200" unfolding cov by simp
  have ev: "line_is_covered line_long (existing_coverage_text [tc_long]) (7 / 10) = Inr False"
    by code_simp
  have "replicate 198 CHR ''x'' = replicate 8 CHR ''x'' @ replicate 190 CHR ''x''"
    by (simp add: replicate_add[symmetric])
  then have s1: "sublist (replicate 190 CHR ''x'') (existing_coverage_text [tc_long])"
    unfolding cov by (metis append_assoc sublist_appendI)
  have s2: "sublist (replicate 190 CHR ''x'') (str_lower line_long)"
    unfolding low by (rule sublist_append_leftI)
  let ?L = "longest_common_substring (str_lower line_long) (existing_coverage_text [tc_long])"
  from lcs_ge[OF s2 s1] have "190 \<le> ?L" by simp
  then have "(380 :: nat) \<le> 2 * ?L" by simp
  then have "(of_nat 380 :: rat) \<le> of_nat (2 * ?L)" by (rule of_nat_mono)
  then have "(380 :: rat) \<le> of_nat (2 * ?L)" by simp
  moreover have "length line_long = 192" by (simp add: line_long_def)
  ultimately have "judged_covered line_long (existing_coverage_text [tc_long])"
    using len by (simp add: judged_covered_def le_divide_eq)
  with len ev show ?thesis by simp
qed

section \<open>The duplicate matcher\<close>

text \<open>
  Claim C10, as amended. A matcher built with the threshold \<open>0.0\<close>, or with none, is the
  matcher built with the threshold of the settings. That threshold is \<open>0.90\<close> when the
  environment does not set \<^verbatim>\<open>DEDUP_THRESHOLD\<close> and the value of the variable when it
  does; and the threshold of a matcher is \<open>0\<close> exactly when the settings say \<open>0\<close> and
  the argument is \<open>0.0\<close> or none.
\<close>

theorem dedup_threshold_fallback:
  "DedupEngine_init settings existing (Some 0) =
     DedupEngine_init settings existing (Some (DEDUP_THRESHOLD settings)) \<and>
   DedupEngine_init settings existing None =
     DedupEngine_init settings existing (Some (DEDUP_THRESHOLD settings)) \<and>
   threshold (DedupEngine_init settings existing (Some 0)) = DEDUP_THRESHOLD settings \<and>
   threshold (DedupEngine_init settings existing None) = DEDUP_THRESHOLD settings \<and>
   DEDUP_THRESHOLD (Settings_load None) = 9 / 10 \<and>
   DEDUP_THRESHOLD (Settings_load (Some v)) = v \<and>
   (threshold (DedupEngine_init settings existing thr) = 0) =
     (DEDUP_THRESHOLD settings = 0 \<and> (thr = None \<or> thr = Some 0))"
  by (auto simp: DedupEngine_init_def Settings_load_def split: option.splits)

text \<open>
  The claim as stated fails when the environment sets the threshold: with
  \<^verbatim>\<open>DEDUP_THRESHOLD=0\<close> a matcher built with no threshold has the threshold \<open>0\<close>, and
  with \<^verbatim>\<open>DEDUP_THRESHOLD=0.5\<close> a matcher built with \<open>0.0\<close> has the threshold \<open>0.5\<close>,
  not \<open>0.90\<close>.
\<close>

theorem dedup_zero_environment_counterexample:
  "threshold (DedupEngine_init (Settings_load (Some 0)) [] None) = 0 \<and>
   threshold (DedupEngine_init (Settings_load (Some (1 / 2))) [] (Some 0)) = 1 / 2"
  by (simp add: DedupEngine_init_def Settings_load_def)

text \<open>
  Claim C1. The claim says that against an empty list of existing test cases \<^verbatim>\<open>check\<close>
  reports no duplicate with score \<open>0.0\<close>, and that a duplicate carries the identifier
  of the existing test case that reached the maximum. With \<^verbatim>\<open>DEDUP_THRESHOLD=0\<close> in the
  environment and no existing test case, the initial score \<open>0.0\<close> passes the test
  \<^verbatim>\<open>best_score >= self._threshold\<close> and \<^verbatim>\<open>check\<close> reports a duplicate of the identifier
  \<open>0\<close>, which is no existing test case; \<^verbatim>\<open>run\<close> then updates the work item \<open>0\<close> and
  files it into the suites.
\<close>

theorem check_zero_threshold_duplicate:
  "check (DedupEngine_init (Settings_load (Some 0)) [] None) gen_login =
     Inr \<lparr>is_duplicate = True, matched_id = 0, score = 0\<rparr> \<and>
   snd (run (world_fixed story_login [] [gen_login]) (Settings_load (Some 0)) 1 False []) =
     [NewADOClient, GetUserStory 1, ShowStory story_login, GetLinkedTestCases 1,
      NewTestGenerator, Generate story_login [], ShowPlan [gen_login],
      PrintMatch gen_login \<lparr>is_duplicate = True, matched_id = 0, score = 0\<rparr>,
      EnsureFolders, UpdateTestCase 0 gen_login, AddTestToSuite 10 0, AddTestToSuite 12 0,
      ShowResults \<lparr>story_id = 1, created_ids = [], updated_ids = [0], skipped_count = 0,
                   folder_map = folders4\<rparr>]"
proof -
  have c: "check (DedupEngine_init (Settings_load (Some 0)) [] None) gen_login =
     Inr \<lparr>is_duplicate = True, matched_id = 0, score = 0\<rparr>"
    by (simp add: check_def DedupEngine_init_def Settings_load_def bind_def)
  have r: "snd (run (world_fixed story_login [] [gen_login]) (Settings_load (Some 0)) 1 False []) =
     [NewADOClient, GetUserStory 1, ShowStory story_login, GetLinkedTestCases 1,
      NewTestGenerator, Generate story_login [], ShowPlan [gen_login],
      PrintMatch gen_login \<lparr>is_duplicate = True, matched_id = 0, score = 0\<rparr>,
      EnsureFolders, UpdateTestCase 0 gen_login, AddTestToSuite 10 0, AddTestToSuite 12 0,
      ShowResults \<lparr>story_id = 1, created_ids = [], updated_ids = [0], skipped_count = 0,
                   folder_map = folders4\<rparr>]"
    using c
    by (simp add: run_def world_fixed_def io_bind_def io_call_def io_lift_def io_return_def
        console_def show_story_def show_plan_def show_results_def compute_delta_no_existing
        has_existing_tests_def bind_def setup_folders_def assign_many_def assign_test_def
        file_into_def Let_def gen_login_def folders4_def)
  from c r show ?thesis by simp
qed

section \<open>No comparison raises\<close>

text \<open>
  Claim C9, as amended. For every input the similarity, the coverage delta and the
  duplicate check return a value: no index is out of range, no division is by zero,
  and the search for matching blocks terminates. On the empty inputs the results are
  these: the similarity of the empty string and a non-empty string is \<open>0.0\<close>, that of
  two empty strings is \<open>1.0\<close>; the delta is empty when the acceptance criteria are
  empty or there is no existing test case, and lists every criteria line when there are
  existing test cases whose corpus is empty; against no existing signature the check
  returns the score \<open>0.0\<close> and the identifier \<open>0\<close>, as a duplicate only when the
  threshold is not positive.
\<close>

theorem comparison_total:
  "(\<exists>r. similarity a b = Inr r) \<and> (\<exists>d. compute_delta self = Inr d) \<and>
   (\<exists>res. check eng tc = Inr res) \<and>
   (b \<noteq> [] \<longrightarrow> similarity [] b = Inr 0 \<and> similarity b [] = Inr 0) \<and>
   similarity [] [] = Inr 1 \<and>
   (acceptance_criteria (da_story self) = [] \<or> da_existing self = [] \<longrightarrow>
      compute_delta self = Inr []) \<and>
   (da_existing self \<noteq> [] \<and> existing_coverage_text (da_existing self) = [] \<longrightarrow>
      compute_delta self =
        Inr (str_join newline (map (\<lambda>line. ''- '' @ line)
               (extract_criteria_lines (acceptance_criteria (da_story self)))))) \<and>
   (existing_sigs eng = [] \<longrightarrow>
      check eng tc = Inr \<lparr>is_duplicate = (threshold eng \<le> 0), matched_id = 0, score = 0\<rparr>)"
proof -
  have t: "(\<exists>r. similarity a b = Inr r) \<and> (\<exists>d. compute_delta self = Inr d) \<and>
           (\<exists>res. check eng tc = Inr res)"
    using similarity_total[of a b] compute_delta_total[of self] check_total[of eng tc] by blast
  have s: "similarity [] b = Inr 0 \<and> similarity b [] = Inr 0" if "b \<noteq> []"
    using that similarity_empty[of b] similarity_empty_right[of b] by simp
  have s0: "similarity [] [] = Inr 1" using similarity_empty[of "[]"] by simp
  have d: "compute_delta self = Inr []"
    if "acceptance_criteria (da_story self) = [] \<or> da_existing self = []"
    using that by (auto simp: compute_delta_def Let_def extract_criteria_lines_Nil)
  have e: "compute_delta self =
        Inr (str_join newline (map (\<lambda>line. ''- '' @ line)
               (extract_criteria_lines (acceptance_criteria (da_story self)))))"
    if "da_existing self \<noteq> [] \<and> existing_coverage_text (da_existing self) = []"
    using that delta_of_empty_corpus[of self] by simp
  have c: "check eng tc = Inr \<lparr>is_duplicate = (threshold eng \<le> 0), matched_id = 0, score = 0\<rparr>"
    if "existing_sigs eng = []"
    using that by (simp add: check_def Let_def bind_def)
  from t s s0 d e c show ?thesis by blast
qed

theorem comparison_total_witness:
  "similarity [] ''login'' = Inr 0 \<and> similarity ''login'' [] = Inr 0 \<and>
   compute_delta \<lparr>da_story = story_login, da_existing = []\<rparr> = Inr [] \<and>
   existing_coverage_text [tc_blank] = [] \<and>
   compute_delta \<lparr>da_story = story_login, da_existing = [tc_blank]\<rparr> =
     Inr (''- User can log in'' @ newline @ ''- User can reset password'') \<and>
   check (DedupEngine_init (Settings_load None) [] None) gen_login =
     Inr \<lparr>is_duplicate = False, matched_id = 0, score = 0\<rparr>"
proof -
  have cb: "existing_coverage_text [tc_blank] = []"
    by (simp add: existing_coverage_text_def tc_blank_def str_lower_def)
  have ex: "extract_criteria_lines (acceptance_criteria story_login) =
     [''User can log in'', ''User can reset password'']"
    by code_simp
  from comparison_total[of "[]" "''login''" "\<lparr>da_story = story_login, da_existing = []\<rparr>"
      "DedupEngine_init (Settings_load None) [] None" gen_login]
    comparison_total[of "[]" "''login''" "\<lparr>da_story = story_login, da_existing = [tc_blank]\<rparr>"
      "DedupEngine_init (Settings_load None) [] None" gen_login]
    cb ex
  show ?thesis
    by (simp add: DedupEngine_init_def Settings_load_def)
qed

text \<open>
  The claim as stated fails: the results on empty inputs are not always the score
  \<open>0.0\<close>. A generated test case whose four fields are empty, checked against one
  existing test case with an empty title and no step, has the score \<open>1.0\<close> and is
  reported as a duplicate.
\<close>

theorem check_blank_duplicate_counterexample:
  "tc_signature (gtc_title gen_blank) (gtc_given gen_blank) (gtc_when gen_blank) (gtc_then gen_blank)
     = [] \<and>
   existing_signature tc_blank = [] \<and>
   check (DedupEngine_init (Settings_load None) [tc_blank] None) gen_blank =
     Inr \<lparr>is_duplicate = True, matched_id = 5, score = 1\<rparr>"
proof -
  have "tc_signature (gtc_title gen_blank) (gtc_given gen_blank) (gtc_when gen_blank)
          (gtc_then gen_blank) = []"
    by code_simp
  moreover have "existing_signature tc_blank = []"
    by code_simp
  ultimately show ?thesis using blank_check_value by simp
qed

section \<open>The pipeline\<close>

text \<open>
  Claim C5. When the fetch phase has gone through (the client is built, the story is
  fetched and shown, the linked test cases are fetched) with at least one existing test
  case, and the delta is the empty string, \<^verbatim>\<open>run\<close> returns a result whose
  \<open>skipped_count\<close> is the number of existing test cases and whose lists of created and
  updated identifiers are empty; the only collaborator calls are those of the fetch
  phase: the generator and the writing calls are not invoked.
\<close>

theorem run_early_exit:
  assumes "ado_client_init w [] = Inr ()"
    and "get_user_story w [NewADOClient] sid = Inr story"
    and "console_print w [NewADOClient, GetUserStory sid] (ShowStory story) = Inr ()"
    and "get_linked_test_cases w [NewADOClient, GetUserStory sid, ShowStory story] sid = Inr existing"
    and "existing \<noteq> []"
    and "compute_delta \<lparr>da_story = story, da_existing = existing\<rparr> = Inr []"
  shows "run w settings sid dry_run [] =
     (Inr \<lparr>story_id = sid, created_ids = [], updated_ids = [],
           skipped_count = int (length existing), folder_map = []\<rparr>,
      [NewADOClient, GetUserStory sid, ShowStory story, GetLinkedTestCases sid])"
  using assms
  by (simp add: run_def io_bind_def io_call_def io_lift_def io_return_def has_existing_tests_def
      console_def show_story_def Let_def)

theorem run_early_exit_witness:
  "compute_delta \<lparr>da_story = story_covered, da_existing = [tc_login]\<rparr> = Inr [] \<and>
   run (world_fixed story_covered [tc_login] [gen_login]) (Settings_load None) 1 False [] =
     (Inr \<lparr>story_id = 1, created_ids = [], updated_ids = [], skipped_count = 1, folder_map = []\<rparr>,
      [NewADOClient, GetUserStory 1, ShowStory story_covered, GetLinkedTestCases 1])"
  using run_early_exit[of "world_fixed story_covered [tc_login] [gen_login]" 1 story_covered
      "[tc_login]" "Settings_load None" False] covered_delta_value
  by (simp add: world_fixed_def)

text \<open>
  Claim C6. A dry run calls neither \<^verbatim>\<open>create_test_case\<close> nor \<^verbatim>\<open>update_test_case\<close> nor
  \<^verbatim>\<open>add_test_to_suite\<close> (nor \<^verbatim>\<open>ensure_folders\<close>), whatever the collaborators answer and
  whether or not one of them raises; and when the calls up to the display of the plan
  go through and the run does not exit early, it returns the untouched result right
  after the generation phase.
\<close>

theorem run_dry_run:
  "filter is_write (snd (run w settings sid True [])) = [] \<and>
   (ado_client_init w [] = Inr () \<and>
    get_user_story w [NewADOClient] sid = Inr story \<and>
    console_print w [NewADOClient, GetUserStory sid] (ShowStory story) = Inr () \<and>
    get_linked_test_cases w [NewADOClient, GetUserStory sid, ShowStory story] sid = Inr existing \<and>
    compute_delta \<lparr>da_story = story, da_existing = existing\<rparr> = Inr delta \<and>
    (existing = [] \<or> delta \<noteq> []) \<and>
    pre = [NewADOClient, GetUserStory sid, ShowStory story, GetLinkedTestCases sid] \<and>
    shown = (if delta \<noteq> [] then [PrintDelta delta] else []) \<and>
    (delta \<noteq> [] \<longrightarrow> console_print w pre (PrintDelta delta) = Inr ()) \<and>
    test_generator_init w (pre @ shown) = Inr () \<and>
    generate w (pre @ shown @ [NewTestGenerator]) story delta = Inr cases \<and>
    console_print w (pre @ shown @ [NewTestGenerator, Generate story delta]) (ShowPlan cases) = Inr ()
    \<longrightarrow>
    run w settings sid True [] =
      (Inr \<lparr>story_id = sid, created_ids = [], updated_ids = [], skipped_count = 0, folder_map = []\<rparr>,
       pre @ shown @ [NewTestGenerator, Generate story delta, ShowPlan cases]))"
proof -
  have nw: "filter is_write (snd (run w settings sid True [])) = []"
    by (auto simp: run_def io_bind_def io_call_def io_lift_def io_return_def has_existing_tests_def
        console_def show_story_def show_plan_def is_write_def Let_def split: sum.splits)
  have ret: "run w settings sid True [] =
      (Inr \<lparr>story_id = sid, created_ids = [], updated_ids = [], skipped_count = 0, folder_map = []\<rparr>,
       pre @ shown @ [NewTestGenerator, Generate story delta, ShowPlan cases])"
    if "ado_client_init w [] = Inr ()"
      "get_user_story w [NewADOClient] sid = Inr story"
      "console_print w [NewADOClient, GetUserStory sid] (ShowStory story) = Inr ()"
      "get_linked_test_cases w [NewADOClient, GetUserStory sid, ShowStory story] sid = Inr existing"
      "compute_delta \<lparr>da_story = story, da_existing = existing\<rparr> = Inr delta"
      "existing = [] \<or> delta \<noteq> []"
      "pre = [NewADOClient, GetUserStory sid, ShowStory story, GetLinkedTestCases sid]"
      "shown = (if delta \<noteq> [] then [PrintDelta delta] else [])"
      "delta \<noteq> [] \<longrightarrow> console_print w pre (PrintDelta delta) = Inr ()"
      "test_generator_init w (pre @ shown) = Inr ()"
      "generate w (pre @ shown @ [NewTestGenerator]) story delta = Inr cases"
      "console_print w (pre @ shown @ [NewTestGenerator, Generate story delta]) (ShowPlan cases) = Inr ()"
  proof (cases "delta = []")
    case True
    with that show ?thesis
      by (simp add: run_def io_bind_def io_call_def io_lift_def io_return_def has_existing_tests_def
          console_def show_story_def show_plan_def Let_def)
  next
    case False
    with that show ?thesis
      by (simp add: run_def io_bind_def io_call_def io_lift_def io_return_def has_existing_tests_def
          console_def show_story_def show_plan_def Let_def)
  qed
  from nw ret show ?thesis by blast
qed

theorem run_dry_run_witness:
  "run (world_fixed story_login [tc_login] [gen_login]) (Settings_load None) 1 True [] =
     (Inr \<lparr>story_id = 1, created_ids = [], updated_ids = [], skipped_count = 0, folder_map = []\<rparr>,
      [NewADOClient, GetUserStory 1, ShowStory story_login, GetLinkedTestCases 1,
       PrintDelta (''- User can log in'' @ newline @ ''- User can reset password''),
       NewTestGenerator,
       Generate story_login (''- User can log in'' @ newline @ ''- User can reset password''),
       ShowPlan [gen_login]]) \<and>
   snd (run (world_fixed story_login [tc_login] [gen_login]) (Settings_load None) 1 False []) =
     [NewADOClient, GetUserStory 1, ShowStory story_login, GetLinkedTestCases 1,
      PrintDelta (''- User can log in'' @ newline @ ''- User can reset password''),
      NewTestGenerator,
      Generate story_login (''- User can log in'' @ newline @ ''- User can reset password''),
      ShowPlan [gen_login],
      PrintMatch gen_login \<lparr>is_duplicate = True, matched_id = 7, score = 22 / 23\<rparr>,
      EnsureFolders, UpdateTestCase 7 gen_login, AddTestToSuite 10 7, AddTestToSuite 12 7,
      ShowResults \<lparr>story_id = 1, created_ids = [], updated_ids = [7], skipped_count = 0,
                   folder_map = folders4\<rparr>]"
proof -
  note d = login_delta_value and c = login_check_value
  let ?delta = "''- User can log in'' @ newline @ ''- User can reset password''"
  have dry: "run (world_fixed story_login [tc_login] [gen_login]) (Settings_load None) 1 True [] =
     (Inr \<lparr>story_id = 1, created_ids = [], updated_ids = [], skipped_count = 0, folder_map = []\<rparr>,
      [NewADOClient, GetUserStory 1, ShowStory story_login, GetLinkedTestCases 1,
       PrintDelta ?delta, NewTestGenerator, Generate story_login ?delta, ShowPlan [gen_login]])"
    using run_dry_run[of "world_fixed story_login [tc_login] [gen_login]" "Settings_load None" 1
        story_login "[tc_login]" ?delta
        "[NewADOClient, GetUserStory 1, ShowStory story_login, GetLinkedTestCases 1]"
        "[PrintDelta ?delta]" "[gen_login]"] d
    by (simp add: world_fixed_def)
  have wet: "snd (run (world_fixed story_login [tc_login] [gen_login]) (Settings_load None) 1 False []) =
     [NewADOClient, GetUserStory 1, ShowStory story_login, GetLinkedTestCases 1,
      PrintDelta ?delta, NewTestGenerator, Generate story_login ?delta, ShowPlan [gen_login],
      PrintMatch gen_login \<lparr>is_duplicate = True, matched_id = 7, score = 22 / 23\<rparr>,
      EnsureFolders, UpdateTestCase 7 gen_login, AddTestToSuite 10 7, AddTestToSuite 12 7,
      ShowResults \<lparr>story_id = 1, created_ids = [], updated_ids = [7], skipped_count = 0,
                   folder_map = folders4\<rparr>]"
    using d c
    by (simp add: run_def world_fixed_def io_bind_def io_call_def io_lift_def io_return_def
        console_def show_story_def show_plan_def show_results_def
        has_existing_tests_def bind_def setup_folders_def assign_many_def assign_test_def
        file_into_def Let_def gen_login_def folders4_def)
  from dry wet show ?thesis by simp
qed

section \<open>The category router\<close>

text \<open>
  Claim C8, as amended. As long as \<^verbatim>\<open>add_test_to_suite\<close> itself does not fail,
  \<^verbatim>\<open>assign_test\<close> files the test case into \<open>Complete Test Cases\<close> and then into the folder
  of its category, which is one of \<open>Smoke\<close>, \<open>Sanity\<close> and \<open>Regression\<close> and is
  \<open>Regression\<close> for any other category value. A filing is skipped, and nothing is
  raised, when the folder is absent from the map or its identifier is \<open>0\<close>; for every
  other folder the call is the one the specification describes. A folder map that is
  still empty is first provisioned through \<^verbatim>\<open>ensure_folders\<close>: the filing uses the map
  that call returns, and what that call raises is raised.
\<close>

theorem assign_test_files:
  assumes "\<And>tr s t. add_test_to_suite w tr s t = Inr ()"
  shows
    "(fm_folder_map self \<noteq> [] \<longrightarrow>
        assign_test w self test_case_id tc tr =
          (Inr self,
           tr @ truthy_filing (map_of (fm_folder_map self) ''Complete Test Cases'') test_case_id
              @ truthy_filing (map_of (fm_folder_map self) (route (category tc))) test_case_id)) \<and>
     (fm_folder_map self = [] \<longrightarrow>
        assign_test w self test_case_id tc tr =
          (case ensure_folders w tr of
             Inl e \<Rightarrow> (Inl e, tr @ [EnsureFolders])
           | Inr m \<Rightarrow>
               (Inr (self\<lparr>fm_folder_map := m\<rparr>),
                tr @ [EnsureFolders] @ truthy_filing (map_of m ''Complete Test Cases'') test_case_id
                   @ truthy_filing (map_of m (route (category tc))) test_case_id))) \<and>
     route (category tc) \<in> {''Smoke'', ''Sanity'', ''Regression''} \<and>
     (category tc \<notin> {''Smoke'', ''Sanity'', ''Regression''} \<longrightarrow> route (category tc) = ''Regression'') \<and>
     (category tc \<in> {''Smoke'', ''Sanity'', ''Regression''} \<longrightarrow> route (category tc) = category tc) \<and>
     (\<forall>fm name. truthy_filing (map_of fm name) test_case_id =
                  (if map_of fm name = Some 0 then [] else filing fm name test_case_id)) \<and>
     (\<forall>fm name. map_of fm name = None \<longrightarrow> truthy_filing (map_of fm name) test_case_id = [])"
proof -
  have cat: "(if category tc \<in> set [''Smoke'', ''Sanity'', ''Regression''] then category tc
              else ''Regression'') = route (category tc)"
    by (auto simp: route_def)
  have a: "assign_test w self test_case_id tc tr =
          (Inr self,
           tr @ truthy_filing (map_of (fm_folder_map self) ''Complete Test Cases'') test_case_id
              @ truthy_filing (map_of (fm_folder_map self) (route (category tc))) test_case_id)"
    if "fm_folder_map self \<noteq> []"
    using that unfolding assign_test_def cat
    by (simp add: io_bind_def io_return_def Let_def file_into_ok[OF assms])
  have b: "assign_test w self test_case_id tc tr =
          (case ensure_folders w tr of
             Inl e \<Rightarrow> (Inl e, tr @ [EnsureFolders])
           | Inr m \<Rightarrow>
               (Inr (self\<lparr>fm_folder_map := m\<rparr>),
                tr @ [EnsureFolders] @ truthy_filing (map_of m ''Complete Test Cases'') test_case_id
                   @ truthy_filing (map_of m (route (category tc))) test_case_id))"
    if "fm_folder_map self = []"
    using that unfolding assign_test_def cat
    by (simp add: io_bind_def io_return_def io_call_def setup_folders_def Let_def
        file_into_ok[OF assms] split: sum.splits)
  have c: "\<forall>fm name. truthy_filing (map_of fm name) test_case_id =
                  (if map_of fm name = Some 0 then [] else filing fm name test_case_id)"
    by (auto simp: truthy_filing_def filing_def split: option.splits)
  have d: "\<forall>fm name. map_of fm name = None \<longrightarrow> truthy_filing (map_of fm name) test_case_id = []"
    by (simp add: truthy_filing_def)
  have r1: "route (category tc) \<in> {''Smoke'', ''Sanity'', ''Regression''}"
    by (simp add: route_def)
  have r2: "category tc \<notin> {''Smoke'', ''Sanity'', ''Regression''} \<longrightarrow>
            route (category tc) = ''Regression''"
    by (simp add: route_def)
  have r3: "category tc \<in> {''Smoke'', ''Sanity'', ''Regression''} \<longrightarrow>
            route (category tc) = category tc"
    by (auto simp: route_def)
  from a b r1 r2 r3 c d show ?thesis by blast
qed

theorem assign_test_files_witness:
  "assign_test (world_fixed story_login [tc_login] [gen_login]) \<lparr>fm_folder_map = folders4\<rparr> 7
     (gen_login\<lparr>category := ''Bogus''\<rparr>) [] =
     (Inr \<lparr>fm_folder_map = folders4\<rparr>, [AddTestToSuite 10 7, AddTestToSuite 11 7]) \<and>
   assign_test (world_fixed story_login [tc_login] [gen_login])
     \<lparr>fm_folder_map = [(''Complete Test Cases'', 10)]\<rparr> 7 gen_login [] =
     (Inr \<lparr>fm_folder_map = [(''Complete Test Cases'', 10)]\<rparr>, [AddTestToSuite 10 7]) \<and>
   assign_test (world_fixed story_login [tc_login] [gen_login]) \<lparr>fm_folder_map = []\<rparr> 7 gen_login [] =
     (Inr \<lparr>fm_folder_map = folders4\<rparr>, [EnsureFolders, AddTestToSuite 10 7, AddTestToSuite 12 7])"
proof -
  let ?w = "world_fixed story_login [tc_login] [gen_login]"
  have ok: "\<And>tr s t. add_test_to_suite ?w tr s t = Inr ()"
    by (simp add: world_fixed_def)
  note t1 = assign_test_files[OF ok, of "\<lparr>fm_folder_map = folders4\<rparr>" 7
      "gen_login\<lparr>category := ''Bogus''\<rparr>" "[]", THEN conjunct1]
  note t2 = assign_test_files[OF ok, of "\<lparr>fm_folder_map = [(''Complete Test Cases'', 10)]\<rparr>" 7
      gen_login "[]", THEN conjunct1]
  note t3 = assign_test_files[OF ok, of "\<lparr>fm_folder_map = []\<rparr>" 7 gen_login "[]",
      THEN conjunct2, THEN conjunct1]
  have one: "assign_test ?w \<lparr>fm_folder_map = folders4\<rparr> 7 (gen_login\<lparr>category := ''Bogus''\<rparr>) [] =
     (Inr \<lparr>fm_folder_map = folders4\<rparr>, [AddTestToSuite 10 7, AddTestToSuite 11 7])"
    using t1 by (simp add: folders4_def truthy_filing_def route_def gen_login_def)
  have two: "assign_test ?w \<lparr>fm_folder_map = [(''Complete Test Cases'', 10)]\<rparr> 7 gen_login [] =
     (Inr \<lparr>fm_folder_map = [(''Complete Test Cases'', 10)]\<rparr>, [AddTestToSuite 10 7])"
    using t2 by (simp add: truthy_filing_def route_def gen_login_def)
  have three: "assign_test ?w \<lparr>fm_folder_map = []\<rparr> 7 gen_login [] =
     (Inr \<lparr>fm_folder_map = folders4\<rparr>, [EnsureFolders, AddTestToSuite 10 7, AddTestToSuite 12 7])"
    using t3 by (simp add: world_fixed_def folders4_def truthy_filing_def route_def gen_login_def)
  from one two three show ?thesis by simp
qed

text \<open>
  The claim as stated fails in two ways. A folder that is in the map with the
  identifier \<open>0\<close> is skipped: with \<open>Complete Test Cases\<close> mapped to \<open>0\<close> and \<open>Smoke\<close> to
  \<open>12\<close>, a \<open>Smoke\<close> test case is filed into the suite \<open>12\<close> only, not into the catch-all
  folder. And on an empty map the filing is not skipped: the folders are provisioned
  through \<^verbatim>\<open>ensure_folders\<close>, and when that call raises, so does \<^verbatim>\<open>assign_test\<close>.
\<close>

theorem assign_test_zero_id_counterexample:
  "assign_test (world_fixed story_login [tc_login] [gen_login]) \<lparr>fm_folder_map = folders_zero\<rparr> 7
     gen_login [] =
     (Inr \<lparr>fm_folder_map = folders_zero\<rparr>, [AddTestToSuite 12 7]) \<and>
   filing folders_zero ''Complete Test Cases'' 7 @ filing folders_zero (route (category gen_login)) 7 =
     [AddTestToSuite 0 7, AddTestToSuite 12 7] \<and>
   assign_test
     ((world_fixed story_login [tc_login] [gen_login])
        \<lparr>ensure_folders := \<lambda>tr. Inl (RemoteError ''ensure_folders'')\<rparr>)
     \<lparr>fm_folder_map = []\<rparr> 7 gen_login [] =
     (Inl (RemoteError ''ensure_folders''), [EnsureFolders]) \<and>
   filing [] ''Complete Test Cases'' 7 @ filing [] (route (category gen_login)) 7 = []"
  by (simp add: assign_test_def world_fixed_def folders_zero_def gen_login_def filing_def route_def
      file_into_def setup_folders_def io_bind_def io_return_def io_call_def Let_def)

section \<open>Text similarity\<close>

text \<open>
  Claim C4, as amended. The similarity of a non-empty string with itself is \<open>1.0\<close>; the
  similarity of the empty string and a non-empty string, in either order, is \<open>0.0\<close>;
  the similarity of the empty string with itself is \<open>1.0\<close>.
\<close>

theorem similarity_identity_and_empty:
  "(a \<noteq> [] \<longrightarrow> similarity a a = Inr 1) \<and>
   (b \<noteq> [] \<longrightarrow> similarity [] b = Inr 0 \<and> similarity b [] = Inr 0) \<and>
   similarity [] [] = Inr 1"
  using similarity_self[of a] similarity_empty[of b] similarity_empty_right[of b]
    similarity_empty[of "[]"]
  by simp

theorem similarity_identity_and_empty_witness:
  "''login'' \<noteq> [] \<and> similarity ''login'' ''login'' = Inr 1 \<and>
   similarity [] ''login'' = Inr 0 \<and> similarity ''login'' [] = Inr 0"
  using similarity_identity_and_empty[of "''login''" "''login''"] by simp

text \<open>
  The claim as stated fails for two empty strings: \<^verbatim>\<open>_calculate_ratio\<close> returns \<open>1.0\<close>
  when the combined length is \<open>0\<close>.
\<close>

theorem similarity_empty_empty_counterexample:
  "similarity [] [] = Inr 1 \<and> similarity [] [] \<noteq> Inr 0"
  using similarity_empty[of "[]"] by simp

end
